theory Spec2Isabelle
  imports Main "HOL-Library.Word"
begin

section \<open>Data model of nfc-mfclassic.c\<close>

text \<open>
  Bytes are \<open>byte_t\<close>. A block of a \<open>mifare_tag\<close> is the 16 bytes of the union
  \<open>mifare_block\<close>: read as a data block they are \<open>mbd.abtData\<close>, read as a trailer
  they are \<open>mbt.abtKeyA\<close> (bytes 0-5), \<open>mbt.abtAccessBits\<close> (bytes 6-9) and
  \<open>mbt.abtKeyB\<close> (bytes 10-15). A tag is the array \<open>amb\<close> of 256 such blocks.
  Block indices are at most 255 (\<open>uiBlocks\<close> is a \<open>uint8_t\<close>), so the 32-bit
  index arithmetic of the source never wraps and is written on \<open>nat\<close>.
\<close>

type_synonym byte_t = "8 word"
type_synonym mifare_block = "byte_t list"
type_synonym mifare_tag = "mifare_block list"

text \<open>The table \<open>keys[]\<close> of candidate keys, 6 bytes each, and \<open>num_keys\<close>.\<close>

definition keys :: "byte_t list" where
  "keys =
    [0xff,0xff,0xff,0xff,0xff,0xff,
     0xd3,0xf7,0xd3,0xf7,0xd3,0xf7,
     0xa0,0xa1,0xa2,0xa3,0xa4,0xa5,
     0xb0,0xb1,0xb2,0xb3,0xb4,0xb5,
     0x4d,0x3a,0x99,0xc3,0x51,0xdd,
     0x1a,0x98,0x2c,0x7e,0x45,0x9a,
     0xaa,0xbb,0xcc,0xdd,0xee,0xff,
     0x00,0x00,0x00,0x00,0x00,0x00]"

definition num_keys :: nat where
  "num_keys = length keys div 6"

text \<open>
  \<open>memcpy (dst + d, src + s, n)\<close> on byte arrays held as lists: the \<open>n\<close> bytes of
  \<open>src\<close> from offset \<open>s\<close> replace the bytes of \<open>dst\<close> from offset \<open>d\<close>.
\<close>

definition memcpy :: "byte_t list \<Rightarrow> nat \<Rightarrow> byte_t list \<Rightarrow> nat \<Rightarrow> nat \<Rightarrow> byte_t list" where
  "memcpy dst d src s n = take d dst @ take n (drop s src) @ drop (d + n) dst"

text \<open>The fields of the trailer view \<open>mbt\<close> of a block.\<close>

definition abtKeyA :: "mifare_block \<Rightarrow> byte_t list" where
  "abtKeyA blk = take 6 blk"

definition abtAccessBits :: "mifare_block \<Rightarrow> byte_t list" where
  "abtAccessBits blk = take 4 (drop 6 blk)"

definition abtKeyB :: "mifare_block \<Rightarrow> byte_t list" where
  "abtKeyB blk = take 6 (drop 10 blk)"

subsection \<open>The reader and the tag behind it\<close>

text \<open>
  Modelled from the spec: the transport collaborator. \<open>nfc_initiator_mifare_cmd\<close> and
  \<open>nfc_initiator_select_tag\<close> belong to the library, not to this file; the program
  only sees whether a command succeeded and, for a read, the 16 bytes returned. The
  reader together with the tag in its field is a deterministic machine over a state
  \<open>'s\<close> of its own: \<open>mifare_io\<close> answers a MIFARE command on a block with its
  parameter bytes (\<open>None\<close> is failure, \<open>Some\<close> carries the bytes read), and
  \<open>select_io\<close> answers a tag selection (\<open>Some uid\<close> when a tag answered).
\<close>

datatype mifare_cmd = MC_AUTH_A | MC_AUTH_B | MC_READ | MC_WRITE

record 's transport =
  mifare_io :: "'s \<Rightarrow> mifare_cmd \<Rightarrow> nat \<Rightarrow> byte_t list \<Rightarrow> byte_t list option \<times> 's"
  select_io :: "'s \<Rightarrow> byte_t list option \<Rightarrow> byte_t list option \<times> 's"

text \<open>
  Every exchange with the reader is recorded, with its result, in a trace; every
  \<open>printf\<close> is recorded as a message.
\<close>

datatype event =
    Mifare mifare_cmd nat "byte_t list" bool
  | Select "byte_t list option" bool

datatype message =
    Reading_out nat
  | Writing nat
  | Mark bool
  | Tag_removed
  | Auth_failed nat
  | Trailer_write_failed nat
  | Bar
  | Done_read nat nat
  | Done_written nat nat

text \<open>
  The globals that \<open>main\<close> fixes before it calls \<open>read_card\<close> or \<open>write_card\<close>,
  and that neither changes.
\<close>

record config =
  bUseKeyA :: bool
  bUseKeyFile :: bool
  uiBlocks :: nat

text \<open>
  The globals the operations change: the device \<open>pnd\<close>, the UID of \<open>nti\<close>, the
  parameter buffer \<open>mp\<close> (its views \<open>mpa.abtKey\<close>, \<open>mpa.abtUid\<close> and
  \<open>mpd.abtData\<close>; each view is written in full before the program reads it, so the
  views are kept apart), \<open>mtKeys\<close> and \<open>mtDump\<close>; with them the trace and the
  standard output.
\<close>

record 's state =
  pnd :: 's
  nti_abtUid :: "byte_t list"
  mpa_abtKey :: "byte_t list"
  mpa_abtUid :: "byte_t list"
  mpd_abtData :: "byte_t list"
  mtKeys :: mifare_tag
  mtDump :: mifare_tag
  trace :: "event list"
  stdout :: "message list"

definition mifare_param :: "mifare_cmd \<Rightarrow> 's state \<Rightarrow> byte_t list" where
  "mifare_param mc st =
     (case mc of
        MC_AUTH_A \<Rightarrow> mpa_abtKey st @ mpa_abtUid st
      | MC_AUTH_B \<Rightarrow> mpa_abtKey st @ mpa_abtUid st
      | MC_READ \<Rightarrow> []
      | MC_WRITE \<Rightarrow> mpd_abtData st)"

definition nfc_initiator_mifare_cmd ::
  "'s transport \<Rightarrow> mifare_cmd \<Rightarrow> nat \<Rightarrow> 's state \<Rightarrow> bool \<times> 's state" where
  "nfc_initiator_mifare_cmd T mc ui8Block st =
     (case mifare_io T (pnd st) mc ui8Block (mifare_param mc st) of
        (None, d) \<Rightarrow>
          (False, st\<lparr>pnd := d,
                     trace := trace st @ [Mifare mc ui8Block (mifare_param mc st) False]\<rparr>)
      | (Some rx, d) \<Rightarrow>
          (True, st\<lparr>pnd := d,
                    mpd_abtData := (if mc = MC_READ then rx else mpd_abtData st),
                    trace := trace st @ [Mifare mc ui8Block (mifare_param mc st) True]\<rparr>))"

text \<open>
  \<open>nfc_initiator_select_tag (pnd, NM_ISO14443A_106, init, len, pnti)\<close>: \<open>init\<close> is
  \<open>None\<close> for \<open>NULL\<close>; \<open>pnti\<close> says whether \<open>&nti\<close> was passed, and then a
  successful selection stores the tag found.
\<close>

definition nfc_initiator_select_tag ::
  "'s transport \<Rightarrow> byte_t list option \<Rightarrow> bool \<Rightarrow> 's state \<Rightarrow> bool \<times> 's state" where
  "nfc_initiator_select_tag T init pnti st =
     (case select_io T (pnd st) init of
        (None, d) \<Rightarrow> (False, st\<lparr>pnd := d, trace := trace st @ [Select init False]\<rparr>)
      | (Some uid, d) \<Rightarrow>
          (True, st\<lparr>pnd := d,
                    nti_abtUid := (if pnti then uid else nti_abtUid st),
                    trace := trace st @ [Select init True]\<rparr>))"

section \<open>Sector geometry\<close>

definition is_first_block :: "nat \<Rightarrow> bool" where
  "is_first_block uiBlock =
     (if uiBlock < 128 then uiBlock mod 4 = 0 else uiBlock mod 16 = 0)"

definition is_trailer_block :: "nat \<Rightarrow> bool" where
  "is_trailer_block uiBlock =
     (if uiBlock < 128 then (uiBlock + 1) mod 4 = 0 else (uiBlock + 1) mod 16 = 0)"

definition get_trailer_block :: "nat \<Rightarrow> nat" where
  "get_trailer_block uiFirstBlock =
     (if uiFirstBlock < 128 then uiFirstBlock + (3 - uiFirstBlock mod 4)
      else uiFirstBlock + (15 - uiFirstBlock mod 16))"

text \<open>
  The sector of a block in the spec's words: a contiguous run of 4 blocks below block
  128 and of 16 blocks from there on.
\<close>

definition sector_blocks :: "nat \<Rightarrow> nat list" where
  "sector_blocks b =
     (if b < 128 then [4 * (b div 4) ..< 4 * (b div 4) + 4]
      else [16 * (b div 16) ..< 16 * (b div 16) + 16])"

section \<open>Authentication\<close>

definition print_success_or_failure :: "bool \<Rightarrow> nat \<Rightarrow> 's state \<Rightarrow> nat \<times> 's state" where
  "print_success_or_failure bFailure uiBlockCounter st =
     (uiBlockCounter + (if bFailure then 0 else 4),
      st\<lparr>stdout := stdout st @ [Mark bFailure]\<rparr>)"

definition auth_cmd :: "config \<Rightarrow> mifare_cmd" where
  "auth_cmd cfg = (if bUseKeyA cfg then MC_AUTH_A else MC_AUTH_B)"

text \<open>
  The \<open>for\<close> loop of the automatic mode, from \<open>key_index\<close> on. A key the tag
  accepts is copied from \<open>mp\<close> into \<open>mtKeys.amb[uiBlock]\<close>; after a refusal the tag
  is selected again with the UID held in \<open>mp\<close>, the result ignored.
\<close>

function auth_keys :: "'s transport \<Rightarrow> config \<Rightarrow> nat \<Rightarrow> nat \<Rightarrow> 's state \<Rightarrow> bool \<times> 's state" where
  "auth_keys T cfg uiBlock key_index st =
     (if key_index < num_keys then
        (case nfc_initiator_mifare_cmd T (auth_cmd cfg) uiBlock
                (st\<lparr>mpa_abtKey := memcpy (mpa_abtKey st) 0 keys (key_index * 6) 6\<rparr>) of
           (True, st1) \<Rightarrow>
             (True,
              st1\<lparr>mtKeys := (mtKeys st1)[uiBlock :=
                     (if bUseKeyA cfg
                      then memcpy (mtKeys st1 ! uiBlock) 0 (mpa_abtKey st1) 0 6
                      else memcpy (mtKeys st1 ! uiBlock) 10 (mpa_abtKey st1) 0 6)]\<rparr>)
         | (False, st1) \<Rightarrow>
             auth_keys T cfg uiBlock (key_index + 1)
               (snd (nfc_initiator_select_tag T (Some (mpa_abtUid st1)) False st1)))
      else (False, st))"
  by pat_completeness auto
termination
  by (relation "measure (\<lambda>(T, cfg, uiBlock, key_index, st). num_keys - key_index)") auto

definition authenticate :: "'s transport \<Rightarrow> config \<Rightarrow> nat \<Rightarrow> 's state \<Rightarrow> bool \<times> 's state" where
  "authenticate T cfg uiBlock st =
     (if bUseKeyFile cfg then
        (let st1 = st\<lparr>mpa_abtUid := memcpy (mpa_abtUid st) 0 (nti_abtUid st) 0 4\<rparr>;
             uiTrailerBlock = get_trailer_block uiBlock;
             st2 = st1\<lparr>mpa_abtKey :=
                     (if bUseKeyA cfg
                      then memcpy (mpa_abtKey st1) 0 (abtKeyA (mtKeys st1 ! uiTrailerBlock)) 0 6
                      else memcpy (mpa_abtKey st1) 0 (abtKeyB (mtKeys st1 ! uiTrailerBlock)) 0 6)\<rparr>
         in nfc_initiator_mifare_cmd T (auth_cmd cfg) uiBlock st2)
      else
        auth_keys T cfg uiBlock 0
          (st\<lparr>mpa_abtUid := memcpy (mpa_abtUid st) 0 (nti_abtUid st) 0 4\<rparr>))"

section \<open>Reading a card\<close>

text \<open>
  The part of the \<open>for\<close> body of \<open>read_card\<close> for a trailer block, after the
  optional reselection: authenticate, then read the trailer. \<open>Inl\<close> is a
  \<open>return\<close> out of \<open>read_card\<close> with its value; \<open>Inr\<close> goes on with the next block,
  carrying \<open>bFailure\<close> and \<open>uiReadBlocks\<close>. A trailer that cannot be read is passed
  over: this branch of the source has no \<open>else\<close>.
\<close>

definition read_trailer_auth ::
  "'s transport \<Rightarrow> config \<Rightarrow> nat \<Rightarrow> nat \<Rightarrow> 's state
     \<Rightarrow> (bool \<times> 's state) + (bool \<times> nat \<times> 's state)" where
  "read_trailer_auth T cfg iBlock uiReadBlocks st =
     (case authenticate T cfg iBlock st of
        (False, st1) \<Rightarrow> Inl (False, st1\<lparr>stdout := stdout st1 @ [Auth_failed iBlock]\<rparr>)
      | (True, st1) \<Rightarrow>
          (case nfc_initiator_mifare_cmd T MC_READ iBlock st1 of
             (True, st2) \<Rightarrow>
               Inr (False, uiReadBlocks,
                 st2\<lparr>mtDump := (mtDump st2)[iBlock :=
                   memcpy
                     (memcpy
                        (memcpy (mtDump st2 ! iBlock) 0 (abtKeyA (mtKeys st2 ! iBlock)) 0 6)
                        6 (mpd_abtData st2) 6 4)
                     10 (abtKeyB (mtKeys st2 ! iBlock)) 0 6]\<rparr>)
           | (False, st2) \<Rightarrow> Inr (False, uiReadBlocks, st2)))"

definition read_trailer ::
  "'s transport \<Rightarrow> config \<Rightarrow> nat \<Rightarrow> bool \<Rightarrow> nat \<Rightarrow> 's state
     \<Rightarrow> (bool \<times> 's state) + (bool \<times> nat \<times> 's state)" where
  "read_trailer T cfg iBlock bFailure uiReadBlocks st =
     (case (if iBlock \<noteq> uiBlocks cfg then print_success_or_failure bFailure uiReadBlocks st
            else (uiReadBlocks, st)) of
        (cnt, st1) \<Rightarrow>
          (if bFailure then
             (case nfc_initiator_select_tag T None True st1 of
                (False, st2) \<Rightarrow> Inl (True, st2\<lparr>stdout := stdout st2 @ [Tag_removed]\<rparr>)
              | (True, st2) \<Rightarrow> read_trailer_auth T cfg iBlock cnt st2)
           else read_trailer_auth T cfg iBlock cnt st1))"

text \<open>The body for a data block; the result is the new \<open>bFailure\<close>.\<close>

definition read_data :: "'s transport \<Rightarrow> nat \<Rightarrow> bool \<Rightarrow> 's state \<Rightarrow> bool \<times> 's state" where
  "read_data T iBlock bFailure st =
     (if \<not> bFailure then
        (case nfc_initiator_mifare_cmd T MC_READ iBlock st of
           (True, st1) \<Rightarrow>
             (bFailure,
              st1\<lparr>mtDump := (mtDump st1)[iBlock :=
                     memcpy (mtDump st1 ! iBlock) 0 (mpd_abtData st1) 0 16]\<rparr>)
         | (False, st1) \<Rightarrow> (True, st1))
      else (bFailure, st))"

text \<open>
  The loop \<open>for (iBlock = uiBlocks; iBlock >= 0; iBlock--)\<close> with the statements
  after it. The first argument is \<open>iBlock + 1\<close>, the number of blocks still to visit.
\<close>

fun read_blocks ::
  "'s transport \<Rightarrow> config \<Rightarrow> nat \<Rightarrow> bool \<Rightarrow> nat \<Rightarrow> 's state \<Rightarrow> bool \<times> 's state" where
  "read_blocks T cfg 0 bFailure uiReadBlocks st =
     (case print_success_or_failure bFailure uiReadBlocks st of
        (cnt, st1) \<Rightarrow>
          (True, st1\<lparr>stdout := stdout st1 @ [Bar, Done_read cnt (uiBlocks cfg + 1)]\<rparr>))"
| "read_blocks T cfg (Suc iBlock) bFailure uiReadBlocks st =
     (if is_trailer_block iBlock then
        (case read_trailer T cfg iBlock bFailure uiReadBlocks st of
           Inl r \<Rightarrow> r
         | Inr (bF, cnt, st1) \<Rightarrow> read_blocks T cfg iBlock bF cnt st1)
      else
        (case read_data T iBlock bFailure st of
           (bF, st1) \<Rightarrow> read_blocks T cfg iBlock bF uiReadBlocks st1))"

definition read_card :: "'s transport \<Rightarrow> config \<Rightarrow> 's state \<Rightarrow> bool \<times> 's state" where
  "read_card T cfg st =
     read_blocks T cfg (Suc (uiBlocks cfg)) False 0
       (st\<lparr>stdout := stdout st @ [Reading_out (uiBlocks cfg + 1)]\<rparr>)"

text \<open>
  What \<open>main\<close> does with the result of \<open>read_card\<close>: the dump goes to the file
  when, and only when, \<open>read_card\<close> returned true.
\<close>

definition main_read :: "'s transport \<Rightarrow> config \<Rightarrow> 's state \<Rightarrow> mifare_tag option" where
  "main_read T cfg st =
     (case read_card T cfg st of
        (True, st1) \<Rightarrow> Some (mtDump st1)
      | (False, st1) \<Rightarrow> None)"

section \<open>Writing a card\<close>

definition write_auth ::
  "'s transport \<Rightarrow> config \<Rightarrow> nat \<Rightarrow> nat \<Rightarrow> 's state
     \<Rightarrow> (bool \<times> 's state) + (bool \<times> nat \<times> 's state)" where
  "write_auth T cfg uiBlock uiWriteBlocks st =
     (case authenticate T cfg uiBlock st of
        (False, st1) \<Rightarrow> Inl (False, st1\<lparr>stdout := stdout st1 @ [Auth_failed uiBlock]\<rparr>)
      | (True, st1) \<Rightarrow> Inr (False, uiWriteBlocks, st1))"

text \<open>The body for the first block of a sector, up to the authentication.\<close>

definition write_first ::
  "'s transport \<Rightarrow> config \<Rightarrow> nat \<Rightarrow> bool \<Rightarrow> nat \<Rightarrow> 's state
     \<Rightarrow> (bool \<times> 's state) + (bool \<times> nat \<times> 's state)" where
  "write_first T cfg uiBlock bFailure uiWriteBlocks st =
     (case (if uiBlock \<noteq> uiBlocks cfg then print_success_or_failure bFailure uiWriteBlocks st
            else (uiWriteBlocks, st)) of
        (cnt, st1) \<Rightarrow>
          (if bFailure then
             (case nfc_initiator_select_tag T None True st1 of
                (False, st2) \<Rightarrow> Inl (False, st2\<lparr>stdout := stdout st2 @ [Tag_removed]\<rparr>)
              | (True, st2) \<Rightarrow> write_auth T cfg uiBlock cnt st2)
           else write_auth T cfg uiBlock cnt st1))"

text \<open>
  The second half of the body: the trailer is rebuilt in \<open>mp\<close> from the dump and
  written; block 0 is left out by \<open>continue\<close>; a data block is written while
  \<open>bFailure\<close> is clear. The result is the new \<open>bFailure\<close>.
\<close>

definition write_block :: "'s transport \<Rightarrow> nat \<Rightarrow> bool \<Rightarrow> 's state \<Rightarrow> bool \<times> 's state" where
  "write_block T uiBlock bFailure st =
     (if is_trailer_block uiBlock then
        (case nfc_initiator_mifare_cmd T MC_WRITE uiBlock
                (st\<lparr>mpd_abtData :=
                   memcpy
                     (memcpy
                        (memcpy (mpd_abtData st) 0 (abtKeyA (mtDump st ! uiBlock)) 0 6)
                        6 (abtAccessBits (mtDump st ! uiBlock)) 0 4)
                     10 (abtKeyB (mtDump st ! uiBlock)) 0 6\<rparr>) of
           (False, st1) \<Rightarrow>
             (True, st1\<lparr>stdout := stdout st1 @ [Trailer_write_failed uiBlock]\<rparr>)
         | (True, st1) \<Rightarrow> (bFailure, st1))
      else if uiBlock = 0 then (bFailure, st)
      else if \<not> bFailure then
        (case nfc_initiator_mifare_cmd T MC_WRITE uiBlock
                (st\<lparr>mpd_abtData := memcpy (mpd_abtData st) 0 (mtDump st ! uiBlock) 0 16\<rparr>) of
           (False, st1) \<Rightarrow> (True, st1)
         | (True, st1) \<Rightarrow> (bFailure, st1))
      else (bFailure, st))"

text \<open>
  The loop \<open>for (uiBlock = 0; uiBlock <= uiBlocks; uiBlock++)\<close> with the statements
  after it.
\<close>

function write_blocks ::
  "'s transport \<Rightarrow> config \<Rightarrow> nat \<Rightarrow> bool \<Rightarrow> nat \<Rightarrow> 's state \<Rightarrow> bool \<times> 's state" where
  "write_blocks T cfg uiBlock bFailure uiWriteBlocks st =
     (if uiBlock \<le> uiBlocks cfg then
        (case (if is_first_block uiBlock
               then write_first T cfg uiBlock bFailure uiWriteBlocks st
               else Inr (bFailure, uiWriteBlocks, st)) of
           Inl r \<Rightarrow> r
         | Inr (bF, cnt, st1) \<Rightarrow>
             (case write_block T uiBlock bF st1 of
                (bF2, st2) \<Rightarrow> write_blocks T cfg (uiBlock + 1) bF2 cnt st2))
      else
        (case print_success_or_failure bFailure uiWriteBlocks st of
           (cnt, st1) \<Rightarrow>
             (True, st1\<lparr>stdout := stdout st1 @ [Bar, Done_written cnt (uiBlocks cfg + 1)]\<rparr>)))"
  by pat_completeness auto
termination
  by (relation "measure (\<lambda>(T, cfg, uiBlock, bFailure, cnt, st). Suc (uiBlocks cfg) - uiBlock)")
    auto

definition write_card :: "'s transport \<Rightarrow> config \<Rightarrow> 's state \<Rightarrow> bool \<times> 's state" where
  "write_card T cfg st =
     write_blocks T cfg 0 False 0
       (st\<lparr>stdout := stdout st @ [Writing (uiBlocks cfg + 1)]\<rparr>)"

section \<open>Extracting the payload\<close>

text \<open>
  The two nested loops of \<open>mifare_classic_extract_payload\<close>; the pair carried along
  is \<open>pbPayload\<close> and \<open>szPayloadIndex\<close>.
\<close>

function extract_blocks ::
  "byte_t list \<Rightarrow> nat \<Rightarrow> nat \<Rightarrow> byte_t list \<times> nat \<Rightarrow> byte_t list \<times> nat" where
  "extract_blocks abDump uiSectorIndex uiBlockIndex (pbPayload, szPayloadIndex) =
     (if uiBlockIndex < 3 then
        extract_blocks abDump uiSectorIndex (uiBlockIndex + 1)
          (memcpy pbPayload szPayloadIndex abDump
             (uiSectorIndex * 16 * 4 + uiBlockIndex * 16) 16,
           szPayloadIndex + 16)
      else (pbPayload, szPayloadIndex))"
  by pat_completeness auto
termination
  by (relation "measure (\<lambda>(abDump, uiSectorIndex, uiBlockIndex, acc). 3 - uiBlockIndex)") auto

function extract_sectors ::
  "byte_t list \<Rightarrow> nat \<Rightarrow> byte_t list \<times> nat \<Rightarrow> byte_t list \<times> nat" where
  "extract_sectors abDump uiSectorIndex acc =
     (if uiSectorIndex < 16 then
        extract_sectors abDump (uiSectorIndex + 1) (extract_blocks abDump uiSectorIndex 0 acc)
      else acc)"
  by pat_completeness auto
termination
  by (relation "measure (\<lambda>(abDump, uiSectorIndex, acc). 16 - uiSectorIndex)") auto

definition mifare_classic_extract_payload :: "byte_t list \<Rightarrow> byte_t list \<Rightarrow> byte_t list" where
  "mifare_classic_extract_payload abDump pbPayload =
     fst (extract_sectors abDump 1 (pbPayload, 0))"

section \<open>Observing a run\<close>

text \<open>
  The candidate key at \<open>keys + key_index * 6\<close>, and the authentication attempts of a
  trace in the order they were made: the command, the block, the key sent (the first
  six parameter bytes) and the answer.
\<close>

definition candidate :: "nat \<Rightarrow> byte_t list" where
  "candidate key_index = take 6 (drop (key_index * 6) keys)"

fun auth_attempts :: "event list \<Rightarrow> (mifare_cmd \<times> nat \<times> byte_t list \<times> bool) list" where
  "auth_attempts [] = []"
| "auth_attempts (Mifare mc b p r # es) =
     (if mc = MC_AUTH_A \<or> mc = MC_AUTH_B then (mc, b, take 6 p, r) # auth_attempts es
      else auth_attempts es)"
| "auth_attempts (Select i r # es) = auth_attempts es"

subsection \<open>Readers and cards for concrete runs\<close>

text \<open>
  A reader without a state of its own: it accepts a command exactly when \<open>ok\<close> says
  so, a read returns 16 bytes that all carry the block index, and a selection finds the
  tag with UID 01 02 03 04 exactly when \<open>sel\<close> holds.
\<close>

definition fixed_reader ::
  "(mifare_cmd \<Rightarrow> nat \<Rightarrow> byte_t list \<Rightarrow> bool) \<Rightarrow> bool \<Rightarrow> unit transport" where
  "fixed_reader ok sel =
     \<lparr>mifare_io = (\<lambda>s mc b p.
        (if ok mc b p then Some (if mc = MC_READ then replicate 16 (of_nat b) else [])
         else None, s)),
      select_io = (\<lambda>s init. (if sel then Some [1, 2, 3, 4] else None, s))\<rparr>"

text \<open>The globals as \<open>main\<close> leaves them before a read without a key file.\<close>

definition fresh :: "unit state" where
  "fresh =
     \<lparr>pnd = (), nti_abtUid = [1, 2, 3, 4], mpa_abtKey = replicate 6 0,
      mpa_abtUid = replicate 4 0, mpd_abtData = replicate 16 0,
      mtKeys = replicate 256 (replicate 16 0), mtDump = replicate 256 (replicate 16 0),
      trace = [], stdout = []\<rparr>"

definition card_1k :: "bool \<Rightarrow> config" where
  "card_1k use_a = \<lparr>bUseKeyA = use_a, bUseKeyFile = False, uiBlocks = 63\<rparr>"

subsection \<open>Dump buffers\<close>

text \<open>
  Block \<open>i\<close> of a dump buffer, and the buffer \<open>P\<close> with the bytes \<open>xs\<close> written over
  it from offset \<open>idx\<close>.
\<close>

definition dump_block :: "byte_t list \<Rightarrow> nat \<Rightarrow> byte_t list" where
  "dump_block abDump i = take 16 (drop (16 * i) abDump)"

definition overwrite :: "byte_t list \<Rightarrow> nat \<Rightarrow> byte_t list \<Rightarrow> byte_t list" where
  "overwrite P idx xs = take idx P @ xs @ drop (idx + length xs) P"

text \<open>The three data blocks of a 4-block sector, as the inner loop copies them.\<close>

definition sector_payload :: "byte_t list \<Rightarrow> nat \<Rightarrow> byte_t list" where
  "sector_payload abDump s = concat (map (\<lambda>i. dump_block abDump (4 * s + i)) [0 ..< 3])"

text \<open>
  The payload in the spec's words: of the 64 blocks of a 1K dump, those that are neither
  in sector 0 nor a trailer, in ascending order.
\<close>

definition payload_blocks :: "nat list" where
  "payload_blocks = filter (\<lambda>b. \<not> b < 4 \<and> \<not> is_trailer_block b) [0 ..< 64]"

text \<open>A dump buffer in which every byte of block \<open>b\<close> is \<open>b\<close>.\<close>

definition marked_dump :: "byte_t list" where
  "marked_dump = concat (map (\<lambda>b. replicate 16 (of_nat b)) [0 ..< 256])"

subsection \<open>Reads and writes of a trace\<close>

text \<open>
  The reads of a trace in the order they were made, each with the block and the answer;
  and likewise the writes, with the 16 bytes sent.
\<close>

fun read_results :: "event list \<Rightarrow> (nat \<times> bool) list" where
  "read_results [] = []"
| "read_results (Mifare mc b p r # es) =
     (if mc = MC_READ then (b, r) # read_results es else read_results es)"
| "read_results (Select i r # es) = read_results es"

fun write_results :: "event list \<Rightarrow> (nat \<times> byte_t list \<times> bool) list" where
  "write_results [] = []"
| "write_results (Mifare mc b p r # es) =
     (if mc = MC_WRITE then (b, p, r) # write_results es else write_results es)"
| "write_results (Select i r # es) = write_results es"

text \<open>What an authentication leaves alone.\<close>

definition quiet :: "'s state \<Rightarrow> 's state \<Rightarrow> bool" where
  "quiet st st' \<longleftrightarrow>
     (\<exists>new. trace st' = trace st @ new \<and> read_results new = [] \<and> write_results new = []) \<and>
     mtDump st' = mtDump st \<and> stdout st' = stdout st \<and> mpd_abtData st' = mpd_abtData st"

text \<open>The events that a step from \<open>st\<close> to \<open>st'\<close> has added to the trace.\<close>

definition added :: "'s state \<Rightarrow> 's state \<Rightarrow> event list" where
  "added st st' = drop (length (trace st)) (trace st')"

definition extends :: "'s state \<Rightarrow> 's state \<Rightarrow> bool" where
  "extends st st' \<longleftrightarrow> take (length (trace st)) (trace st') = trace st"

subsection \<open>The order of the reads\<close>

text \<open>
  The reads that a pass over the blocks below \<open>n\<close> can make when it starts with the
  failure flag \<open>bF\<close>: a trailer is read (unless the pass ends there) and clears the
  flag; a data block is read when the flag is clear, and sets it when the read fails.
\<close>

fun read_shape :: "nat \<Rightarrow> bool \<Rightarrow> (nat \<times> bool) list \<Rightarrow> bool" where
  "read_shape 0 bF rs = (rs = [])"
| "read_shape (Suc i) bF rs =
     (if is_trailer_block i then
        (case rs of [] \<Rightarrow> True | (b, r) # rs' \<Rightarrow> b = i \<and> read_shape i False rs')
      else if bF then read_shape i True rs
      else (case rs of [] \<Rightarrow> False | (b, r) # rs' \<Rightarrow> b = i \<and> read_shape i (\<not> r) rs'))"

text \<open>
  The reads of a pass when every authentication and selection succeeds and the read of
  block \<open>b\<close> succeeds exactly when \<open>okr b\<close>.
\<close>

fun read_plan :: "(nat \<Rightarrow> bool) \<Rightarrow> nat \<Rightarrow> bool \<Rightarrow> (nat \<times> bool) list" where
  "read_plan okr 0 bF = []"
| "read_plan okr (Suc i) bF =
     (if is_trailer_block i then (i, okr i) # read_plan okr i False
      else if bF then read_plan okr i True
      else (i, okr i) # read_plan okr i (\<not> okr i))"


text \<open>
  A reader that accepts every authentication and every selection, and whose answer to a
  read depends on the block alone.
\<close>

definition reads_decided :: "'s transport \<Rightarrow> config \<Rightarrow> (nat \<Rightarrow> bool) \<Rightarrow> bool" where
  "reads_decided T cfg okr \<longleftrightarrow>
     (\<forall>s b p. fst (mifare_io T s (auth_cmd cfg) b p) \<noteq> None) \<and>
     (\<forall>s b p. (fst (mifare_io T s MC_READ b p) \<noteq> None) = okr b) \<and>
     (\<forall>s i. fst (select_io T s i) \<noteq> None)"

text \<open>The blocks to which a step from \<open>st\<close> to \<open>st'\<close> has sent a write, in order.\<close>

definition write_targets :: "'s state \<Rightarrow> 's state \<Rightarrow> nat list" where
  "write_targets st st' = map fst (write_results (added st st'))"

text \<open>A reader that accepts every MIFARE command.\<close>

definition all_accepted :: "'s transport \<Rightarrow> bool" where
  "all_accepted T \<longleftrightarrow> (\<forall>s mc b p. fst (mifare_io T s mc b p) \<noteq> None)"

subsection \<open>The writes of a pass, sector by sector\<close>

text \<open>
  The data blocks of the sector whose trailer is \<open>t\<close> that a pass may write: the blocks
  of the sector before the trailer, block 0 left out. The writes among \<open>ws\<close> that went to
  that sector, and the blocks whose write the tag refused.
\<close>

definition data_blocks :: "nat \<Rightarrow> nat list" where
  "data_blocks t = filter (\<lambda>b. b \<noteq> 0) (butlast (sector_blocks t))"

definition sector_writes ::
  "nat \<Rightarrow> (nat \<times> byte_t list \<times> bool) list \<Rightarrow> (nat \<times> byte_t list \<times> bool) list" where
  "sector_writes t ws = filter (\<lambda>w. fst w \<in> set (sector_blocks t)) ws"

definition refused :: "(nat \<times> byte_t list \<times> bool) list \<Rightarrow> nat list" where
  "refused ws = map fst (filter (\<lambda>w. \<not> snd (snd w)) ws)"

text \<open>A sector has failed when a write to one of its blocks, data or trailer, was refused.\<close>

definition sector_failed :: "nat \<Rightarrow> (nat \<times> byte_t list \<times> bool) list \<Rightarrow> bool" where
  "sector_failed t ws \<longleftrightarrow> refused (sector_writes t ws) \<noteq> []"

text \<open>The blocks of \<open>bs\<close> up to and including the first that \<open>ok\<close> rejects.\<close>

definition until_failure :: "(nat \<Rightarrow> bool) \<Rightarrow> nat list \<Rightarrow> nat list" where
  "until_failure ok bs = takeWhile ok bs @ take 1 (dropWhile ok bs)"

text \<open>
  The 16 bytes that a write of block \<open>b\<close> takes from the dump \<open>D\<close>: for a trailer its
  Key A (bytes 0-5), access bits (bytes 6-9) and Key B (bytes 10-15), for a data block
  its data.
\<close>

definition dump_bytes :: "mifare_tag \<Rightarrow> nat \<Rightarrow> byte_t list" where
  "dump_bytes D b =
     (if is_trailer_block b then abtKeyA (D ! b) @ abtAccessBits (D ! b) @ abtKeyB (D ! b)
      else D ! b)"

text \<open>
  The flags that \<open>print_success_or_failure\<close> has shown, in order, and the messages that
  a step from \<open>st\<close> to \<open>st'\<close> has printed.
\<close>

fun marks :: "message list \<Rightarrow> bool list" where
  "marks [] = []"
| "marks (Mark f # ms) = f # marks ms"
| "marks (m # ms) = marks ms"

definition printed :: "'s state \<Rightarrow> 's state \<Rightarrow> message list" where
  "printed st st' = drop (length (stdout st)) (stdout st')"

text \<open>
  The writes \<open>ws\<close> that a sector with the data blocks \<open>ds\<close> and the trailer \<open>t\<close> can
  receive: the data blocks in order while the writes succeed, and after the first
  refused one, or after the last, the trailer and nothing else.
\<close>

fun sector_discipline :: "nat list \<Rightarrow> nat \<Rightarrow> (nat \<times> byte_t list \<times> bool) list \<Rightarrow> bool" where
  "sector_discipline [] t ws = (map fst ws = [t])"
| "sector_discipline (d # ds) t [] = False"
| "sector_discipline (d # ds) t (w # ws) =
     (fst w = d \<and> (if snd (snd w) then sector_discipline ds t ws else map fst ws = [t]))"

text \<open>
  A reader that accepts every authentication and every selection, and whose answer to a
  write depends on the block alone; the writes, each with its answer, of a pass over the
  blocks from \<open>b\<close> to \<open>u\<close> with such a reader; and the blocks and answers of a list of
  writes.
\<close>

definition writes_decided :: "'s transport \<Rightarrow> config \<Rightarrow> (nat \<Rightarrow> bool) \<Rightarrow> bool" where
  "writes_decided T cfg okw \<longleftrightarrow>
     (\<forall>s b p. fst (mifare_io T s (auth_cmd cfg) b p) \<noteq> None) \<and>
     (\<forall>s b p. (fst (mifare_io T s MC_WRITE b p) \<noteq> None) = okw b) \<and>
     (\<forall>s i. fst (select_io T s i) \<noteq> None)"

function write_plan :: "(nat \<Rightarrow> bool) \<Rightarrow> nat \<Rightarrow> nat \<Rightarrow> bool \<Rightarrow> (nat \<times> bool) list" where
  "write_plan okw u b bF =
     (if b \<le> u then
        (if is_trailer_block b then
           (b, okw b) # write_plan okw u (b + 1) ((\<not> is_first_block b \<and> bF) \<or> \<not> okw b)
         else if b \<noteq> 0 \<and> \<not> (\<not> is_first_block b \<and> bF) then
           (b, okw b) # write_plan okw u (b + 1) (\<not> okw b)
         else write_plan okw u (b + 1) (\<not> is_first_block b \<and> bF))
      else [])"
  by pat_completeness auto
termination
  by (relation "measure (\<lambda>(okw, u, b, bF). Suc u - b)") auto

definition answers :: "(nat \<times> byte_t list \<times> bool) list \<Rightarrow> (nat \<times> bool) list" where
  "answers ws = map (\<lambda>w. (fst w, snd (snd w))) ws"

declare auth_keys.simps [simp del] write_blocks.simps [simp del]
  extract_blocks.simps [simp del] extract_sectors.simps [simp del]
  write_plan.simps [simp del]

section \<open>Properties of the sector geometry\<close>

lemma filter_run_first:
  assumes "0 < m" and "\<And>x. lo \<le> x \<Longrightarrow> x < lo + m \<Longrightarrow> P x = (x = lo)"
  shows "filter P [lo ..< lo + m] = [lo]"
proof -
  have "[lo ..< lo + m] = lo # [Suc lo ..< lo + m]"
    using assms(1) by (simp add: upt_conv_Cons)
  moreover have "filter P [Suc lo ..< lo + m] = []"
    using assms(2) by (auto simp: filter_empty_conv)
  moreover have "P lo" using assms by simp
  ultimately show ?thesis by simp
qed

lemma filter_run_last:
  assumes "\<And>x. lo \<le> x \<Longrightarrow> x < lo + Suc m \<Longrightarrow> P x = (x = lo + m)"
  shows "filter P [lo ..< lo + Suc m] = [lo + m]"
proof -
  have "filter P [lo ..< lo + m] = []"
    using assms by (auto simp: filter_empty_conv)
  moreover have "P (lo + m)" using assms by simp
  ultimately show ?thesis by simp
qed

lemma run_mod:
  fixes m :: nat
  assumes "lo mod m = 0" "lo \<le> x" "x < lo + m"
  shows "x mod m = x - lo"
proof -
  have "x = (x - lo) + lo" using assms(2) by simp
  then have "x mod m = ((x - lo) + lo) mod m" by simp
  also have "\<dots> = (x - lo) mod m" using assms(1) by (simp add: mod_add_right_eq [symmetric])
  also have "\<dots> = x - lo" using assms(2,3) by simp
  finally show ?thesis .
qed

lemma Suc_run_mod:
  fixes m :: nat
  assumes "lo mod m = 0" "lo \<le> x" "x < lo + m" "1 < m"
  shows "(Suc x mod m = 0) = (x = lo + m - 1)"
proof (cases "Suc x < lo + m")
  case True
  then have "Suc x mod m = Suc x - lo"
    using run_mod [of lo m "Suc x"] assms by simp
  then show ?thesis using True assms by simp
next
  case False
  then have x: "Suc x = lo + m" using assms by simp
  then have "Suc x mod m = 0" using assms(1) by (simp add: mod_add_left_eq [symmetric])
  then show ?thesis using x by simp
qed

lemma geometry_of_run:
  fixes m :: nat
  assumes m: "1 < m" and lo: "lo mod m = 0"
    and first: "\<And>x. lo \<le> x \<Longrightarrow> x < lo + m \<Longrightarrow> is_first_block x = (x mod m = 0)"
    and trailer: "\<And>x. lo \<le> x \<Longrightarrow> x < lo + m \<Longrightarrow> is_trailer_block x = (Suc x mod m = 0)"
    and get: "\<And>x. lo \<le> x \<Longrightarrow> x < lo + m \<Longrightarrow> get_trailer_block x = x + (m - 1 - x mod m)"
    and b: "lo \<le> b" "b < lo + m"
  shows "b \<in> set [lo ..< lo + m] \<and>
     filter is_first_block [lo ..< lo + m] = [hd [lo ..< lo + m]] \<and>
     filter is_trailer_block [lo ..< lo + m] = [last [lo ..< lo + m]] \<and>
     (\<forall>c \<in> set [lo ..< lo + m]. get_trailer_block c = last [lo ..< lo + m]) \<and>
     get_trailer_block (get_trailer_block b) = get_trailer_block b"
proof -
  obtain k where k: "m = Suc k" using m by (cases m) simp_all
  have hd: "hd [lo ..< lo + m] = lo" and last: "last [lo ..< lo + m] = lo + k"
    using m by (simp_all add: k del: upt_Suc)
  have f: "filter is_first_block [lo ..< lo + m] = [lo]"
  proof (rule filter_run_first)
    fix x assume x: "lo \<le> x" "x < lo + m"
    then show "is_first_block x = (x = lo)"
      using first [OF x] run_mod [OF lo x] by auto
  qed (use m in simp)
  have t: "filter is_trailer_block [lo ..< lo + Suc k] = [lo + k]"
  proof (rule filter_run_last)
    fix x assume x: "lo \<le> x" "x < lo + Suc k"
    then show "is_trailer_block x = (x = lo + k)"
      using trailer [of x] Suc_run_mod [of lo m x] lo m k by simp
  qed
  have g: "get_trailer_block c = lo + k" if "lo \<le> c" "c < lo + m" for c
    using get [OF that] run_mod [OF lo that] that k by simp
  have i: "get_trailer_block (get_trailer_block b) = get_trailer_block b"
    using g [OF b] g [of "lo + k"] k by simp
  have t': "filter is_trailer_block [lo ..< lo + m] = [lo + k]"
    using t unfolding k .
  show ?thesis
    unfolding hd last using b f t' g i
    by (intro conjI ballI) (simp_all del: upt_Suc)
qed

text \<open>
  Claim C8. For every block index up to 255 (so for the 64 blocks of a 1K card and the 256
  of a 4K card), the sector of the block, a run of 4 blocks below block 128 and of 16 from
  there on, holds exactly one block that \<open>is_first_block\<close> accepts, its first, and
  exactly one that \<open>is_trailer_block\<close> accepts, its last; \<open>get_trailer_block\<close> sends
  every block of the sector to that last block, and applying it twice is the same as
  applying it once.
\<close>

theorem sector_geometry:
  assumes "b \<le> 255"
  shows "b \<in> set (sector_blocks b) \<and>
     filter is_first_block (sector_blocks b) = [hd (sector_blocks b)] \<and>
     filter is_trailer_block (sector_blocks b) = [last (sector_blocks b)] \<and>
     (\<forall>c \<in> set (sector_blocks b). get_trailer_block c = last (sector_blocks b)) \<and>
     get_trailer_block (get_trailer_block b) = get_trailer_block b"
proof (cases "b < 128")
  case True
  define lo where "lo = 4 * (b div 4)"
  have sb: "sector_blocks b = [lo ..< lo + 4]"
    using True by (simp add: sector_blocks_def lo_def)
  have lt: "lo + 4 \<le> 128" using True unfolding lo_def by presburger
  have b: "lo \<le> b" "b < lo + 4" unfolding lo_def by presburger+
  show ?thesis
    unfolding sb
  proof (rule geometry_of_run [OF _ _ _ _ _ b])
    show "lo mod 4 = 0" unfolding lo_def by simp
  qed (use lt in \<open>simp_all add: is_first_block_def is_trailer_block_def get_trailer_block_def\<close>)
next
  case False
  define lo where "lo = 16 * (b div 16)"
  have sb: "sector_blocks b = [lo ..< lo + 16]"
    using False by (simp add: sector_blocks_def lo_def)
  have ge: "128 \<le> lo" using False unfolding lo_def by presburger
  have b: "lo \<le> b" "b < lo + 16" unfolding lo_def by presburger+
  show ?thesis
    unfolding sb
  proof (rule geometry_of_run [OF _ _ _ _ _ b])
    show "lo mod 16 = 0" unfolding lo_def by simp
  qed (use ge in \<open>simp_all add: is_first_block_def is_trailer_block_def get_trailer_block_def\<close>)
qed

theorem sector_geometry_witness:
  "(70::nat) \<le> 255 \<and> sector_blocks 70 = [68, 69, 70, 71] \<and>
   filter is_first_block [68, 69, 70, 71] = [68] \<and>
   filter is_trailer_block [68, 69, 70, 71] = [71] \<and>
   get_trailer_block 70 = 71 \<and> get_trailer_block 71 = 71 \<and>
   (200::nat) \<le> 255 \<and> hd (sector_blocks 200) = 192 \<and> last (sector_blocks 200) = 207 \<and>
   filter is_first_block (sector_blocks 200) = [192] \<and>
   filter is_trailer_block (sector_blocks 200) = [207] \<and>
   get_trailer_block 200 = 207 \<and> get_trailer_block 207 = 207"
proof -
  have s70: "sector_blocks 70 = [68, 69, 70, 71]"
    by (simp add: sector_blocks_def upt_rec)
  have s200: "hd (sector_blocks 200) = 192" "last (sector_blocks 200) = 207"
    by (simp_all add: sector_blocks_def)
  show ?thesis
    using sector_geometry [of 70] sector_geometry [of 200]
    unfolding s200 unfolding s70
    by (simp add: get_trailer_block_def)
qed

section \<open>Properties of the authentication\<close>

lemma num_keys_8: "num_keys = 8"
  by (simp add: num_keys_def keys_def)

lemma length_candidate: "key_index < num_keys \<Longrightarrow> length (candidate key_index) = 6"
  by (simp add: candidate_def num_keys_8 keys_def)

lemma auth_attempts_append: "auth_attempts (xs @ ys) = auth_attempts xs @ auth_attempts ys"
  by (induction xs rule: auth_attempts.induct) simp_all

lemma auth_cmd_is_auth: "auth_cmd cfg = MC_AUTH_A \<or> auth_cmd cfg = MC_AUTH_B"
  by (simp add: auth_cmd_def)

lemma mifare_cmd_result:
  assumes "nfc_initiator_mifare_cmd T mc b st = (ok, st')"
  shows "ok = (fst (mifare_io T (pnd st) mc b (mifare_param mc st)) \<noteq> None)"
    and "trace st' = trace st @ [Mifare mc b (mifare_param mc st) ok]"
    and "mtKeys st' = mtKeys st" and "mtDump st' = mtDump st"
    and "mpa_abtKey st' = mpa_abtKey st" and "mpa_abtUid st' = mpa_abtUid st"
    and "stdout st' = stdout st" and "nti_abtUid st' = nti_abtUid st"
  using assms
  by (auto simp: nfc_initiator_mifare_cmd_def split: prod.splits option.splits)

lemma select_tag_result:
  assumes "nfc_initiator_select_tag T init pnti st = (ok, st')"
  shows "trace st' = trace st @ [Select init ok]"
    and "mtKeys st' = mtKeys st" and "mtDump st' = mtDump st"
    and "mpa_abtKey st' = mpa_abtKey st" and "mpa_abtUid st' = mpa_abtUid st"
    and "mpd_abtData st' = mpd_abtData st" and "stdout st' = stdout st"
  using assms
  by (auto simp: nfc_initiator_select_tag_def split: prod.splits option.splits)

lemma take6_key: 
  "key_index < num_keys \<Longrightarrow> take 6 (memcpy old 0 keys (key_index * 6) 6 @ uid) = candidate key_index"
  using length_candidate [of key_index] by (simp add: memcpy_def candidate_def)

lemma memcpy_take: "memcpy dst d src 0 n = memcpy dst d (take n src) 0 n"
  by (simp add: memcpy_def)

lemma auth_keys_run:
  assumes "auth_keys T cfg b i st = (ok, st')" and "i \<le> num_keys"
  shows "\<exists>n. i \<le> n \<and> n \<le> num_keys \<and> (if ok then i < n else n = num_keys) \<and>
           auth_attempts (trace st') =
             auth_attempts (trace st) @
               map (\<lambda>j. (auth_cmd cfg, b, candidate j, ok \<and> Suc j = n)) [i ..< n] \<and>
           (ok \<longrightarrow> (\<exists>s p. take 6 p = candidate (n - 1) \<and> fst (mifare_io T s (auth_cmd cfg) b p) \<noteq> None)) \<and>
           (\<forall>j. i \<le> j \<and> j < n \<and> \<not> (ok \<and> Suc j = n) \<longrightarrow> (\<exists>s p. take 6 p = candidate j \<and> fst (mifare_io T s (auth_cmd cfg) b p) = None)) \<and>
           mtKeys st' =
             (if ok then (mtKeys st)[b := memcpy (mtKeys st ! b) (if bUseKeyA cfg then 0 else 10)
                                             (candidate (n - 1)) 0 6]
              else mtKeys st)"
  using assms
proof (induction T cfg b i st rule: auth_keys.induct)
  case (1 T cfg uiBlock key_index st)
  show ?case
  proof (cases "key_index < num_keys")
    case False
    then have "key_index = num_keys" using "1.prems"(2) by simp
    moreover have "ok = False" "st' = st"
      using "1.prems"(1) False by (simp_all add: auth_keys.simps)
    ultimately show ?thesis by auto
  next
    case True
    define st0 where "st0 = st\<lparr>mpa_abtKey := memcpy (mpa_abtKey st) 0 keys (key_index * 6) 6\<rparr>"
    obtain r st1 where cmd: "nfc_initiator_mifare_cmd T (auth_cmd cfg) uiBlock st0 = (r, st1)"
      by (cases "nfc_initiator_mifare_cmd T (auth_cmd cfg) uiBlock st0")
    note res = mifare_cmd_result [OF cmd]
    have par: "take 6 (mifare_param (auth_cmd cfg) st0) = candidate key_index"
      using auth_cmd_is_auth [of cfg] take6_key [OF True]
      by (auto simp: mifare_param_def st0_def)
    have tr1: "auth_attempts (trace st1) =
        auth_attempts (trace st) @ [(auth_cmd cfg, uiBlock, candidate key_index, r)]"
      using auth_cmd_is_auth [of cfg] par
      by (auto simp: res(2) auth_attempts_append st0_def)
    have rA: "r = (fst (mifare_io T (pnd st0) (auth_cmd cfg) uiBlock
        (mifare_param (auth_cmd cfg) st0)) \<noteq> None)"
      using res(1) by simp
    show ?thesis
    proof (cases r)
      case True
      have ok: "ok = True" and st': "st' = st1\<lparr>mtKeys := (mtKeys st1)[uiBlock :=
                     (if bUseKeyA cfg
                      then memcpy (mtKeys st1 ! uiBlock) 0 (mpa_abtKey st1) 0 6
                      else memcpy (mtKeys st1 ! uiBlock) 10 (mpa_abtKey st1) 0 6)]\<rparr>"
        using "1.prems"(1) \<open>key_index < num_keys\<close> cmd True
        by (simp_all add: auth_keys.simps [of T cfg uiBlock key_index st] st0_def [symmetric])
      have key: "take 6 (mpa_abtKey st1) = candidate key_index"
        using length_candidate [OF \<open>key_index < num_keys\<close>]
        by (simp add: res(5) st0_def memcpy_def candidate_def)
      have mk: "mtKeys st' = (mtKeys st)[uiBlock := memcpy (mtKeys st ! uiBlock)
          (if bUseKeyA cfg then 0 else 10) (candidate key_index) 0 6]"
        unfolding st' using key res(3)
        by (simp add: st0_def memcpy_take [of _ _ "mpa_abtKey st1"])
      have tr: "auth_attempts (trace st') = auth_attempts (trace st1)"
        unfolding st' by simp
      show ?thesis
        apply (rule exI [of _ "Suc key_index"])
        using \<open>key_index < num_keys\<close> ok mk tr tr1 True rA par
        by auto
    next
      case False
      obtain r2 st2 where sel:
        "nfc_initiator_select_tag T (Some (mpa_abtUid st1)) False st1 = (r2, st2)"
        by (cases "nfc_initiator_select_tag T (Some (mpa_abtUid st1)) False st1")
      note sres = select_tag_result [OF sel]
      have rec: "auth_keys T cfg uiBlock (key_index + 1) st2 = (ok, st')"
        using "1.prems"(1) \<open>key_index < num_keys\<close> cmd False sel
        by (simp add: auth_keys.simps [of T cfg uiBlock key_index st] st0_def [symmetric])
      have cmd0: "(r, st1) = nfc_initiator_mifare_cmd T (auth_cmd cfg) uiBlock
          (st\<lparr>mpa_abtKey := memcpy (mpa_abtKey st) 0 keys (key_index * 6) 6\<rparr>)"
        using cmd by (simp add: st0_def)
      have rF: "r = False" using False by simp
      have snd_sel: "snd (nfc_initiator_select_tag T (Some (mpa_abtUid st1)) False st1) = st2"
        using sel by simp
      have rec0: "auth_keys T cfg uiBlock (key_index + 1)
          (snd (nfc_initiator_select_tag T (Some (mpa_abtUid st1)) False st1)) = (ok, st')"
        using rec snd_sel by simp
      have le: "key_index + 1 \<le> num_keys" using \<open>key_index < num_keys\<close> by simp
      note IH = "1.IH" [of r st1, OF \<open>key_index < num_keys\<close> cmd0 rF rec0 le,
          unfolded snd_sel]
      from IH obtain n where n: "key_index + 1 \<le> n" "n \<le> num_keys"
        "if ok then key_index + 1 < n else n = num_keys"
        "auth_attempts (trace st') =
             auth_attempts (trace st2) @
               map (\<lambda>j. (auth_cmd cfg, uiBlock, candidate j, ok \<and> Suc j = n)) [key_index + 1 ..< n]"
        "ok \<longrightarrow> (\<exists>s p. take 6 p = candidate (n - 1) \<and> fst (mifare_io T s (auth_cmd cfg) uiBlock p) \<noteq> None)"
        "\<forall>j. key_index + 1 \<le> j \<and> j < n \<and> \<not> (ok \<and> Suc j = n) \<longrightarrow> (\<exists>s p. take 6 p = candidate j \<and> fst (mifare_io T s (auth_cmd cfg) uiBlock p) = None)"
        "mtKeys st' =
             (if ok then (mtKeys st2)[uiBlock := memcpy (mtKeys st2 ! uiBlock) (if bUseKeyA cfg then 0 else 10)
                                             (candidate (n - 1)) 0 6]
              else mtKeys st2)"
        by blast
      have tr2: "auth_attempts (trace st2) =
          auth_attempts (trace st) @ [(auth_cmd cfg, uiBlock, candidate key_index, False)]"
        using tr1 False by (simp add: sres(1) auth_attempts_append)
      have upt: "[key_index ..< n] = key_index # [key_index + 1 ..< n]"
        using n(1) by (simp add: upt_conv_Cons)
      have notlast: "\<not> (ok \<and> Suc key_index = n)" using n(1,3) by auto
      have mk: "mtKeys st2 = mtKeys st" using sres(2) res(3) by (simp add: st0_def)
      have nA: "\<exists>s p. take 6 p = candidate key_index \<and>
          fst (mifare_io T s (auth_cmd cfg) uiBlock p) = None"
        using rA False par by auto
      have allj: "\<forall>j. key_index \<le> j \<and> j < n \<and> \<not> (ok \<and> Suc j = n) \<longrightarrow> (\<exists>s p. take 6 p = candidate j \<and> fst (mifare_io T s (auth_cmd cfg) uiBlock p) = None)"
      proof (intro allI impI)
        fix j assume j: "key_index \<le> j \<and> j < n \<and> \<not> (ok \<and> Suc j = n)"
        show "\<exists>s p. take 6 p = candidate j \<and> fst (mifare_io T s (auth_cmd cfg) uiBlock p) = None"
        proof (cases "j = key_index")
          case True then show ?thesis using nA by simp
        next
          case False then show ?thesis using n(6) j by simp
        qed
      qed
      show ?thesis
        apply (rule exI [of _ n])
        using n(1,2,3,5) allj
        by (simp add: n(4) tr2 upt notlast n(7) mk split: if_splits)
    qed
  qed
qed

lemma auth_keys_trace:
  "auth_keys T cfg b i st = (ok, st') \<Longrightarrow> \<exists>new. trace st' = trace st @ new"
proof (induction T cfg b i st rule: auth_keys.induct)
  case (1 T cfg uiBlock key_index st)
  show ?case
  proof (cases "key_index < num_keys")
    case False
    then show ?thesis using "1.prems" by (simp add: auth_keys.simps)
  next
    case True
    define st0 where "st0 = st\<lparr>mpa_abtKey := memcpy (mpa_abtKey st) 0 keys (key_index * 6) 6\<rparr>"
    obtain r st1 where cmd: "nfc_initiator_mifare_cmd T (auth_cmd cfg) uiBlock st0 = (r, st1)"
      by (cases "nfc_initiator_mifare_cmd T (auth_cmd cfg) uiBlock st0")
    have t1: "trace st1 = trace st @ [Mifare (auth_cmd cfg) uiBlock (mifare_param (auth_cmd cfg) st0) r]"
      using mifare_cmd_result(2) [OF cmd] by (simp add: st0_def)
    show ?thesis
    proof (cases r)
      case True
      then show ?thesis
        using "1.prems" \<open>key_index < num_keys\<close> cmd t1
        by (auto simp: auth_keys.simps [of T cfg uiBlock key_index st] st0_def [symmetric])
    next
      case False
      obtain r2 st2 where sel:
        "nfc_initiator_select_tag T (Some (mpa_abtUid st1)) False st1 = (r2, st2)"
        by (cases "nfc_initiator_select_tag T (Some (mpa_abtUid st1)) False st1")
      have cmd0: "(r, st1) = nfc_initiator_mifare_cmd T (auth_cmd cfg) uiBlock
          (st\<lparr>mpa_abtKey := memcpy (mpa_abtKey st) 0 keys (key_index * 6) 6\<rparr>)"
        using cmd by (simp add: st0_def)
      have rF: "r = False" using False by simp
      have snd_sel: "snd (nfc_initiator_select_tag T (Some (mpa_abtUid st1)) False st1) = st2"
        using sel by simp
      have rec0: "auth_keys T cfg uiBlock (key_index + 1)
          (snd (nfc_initiator_select_tag T (Some (mpa_abtUid st1)) False st1)) = (ok, st')"
        using "1.prems" \<open>key_index < num_keys\<close> cmd False
        by (simp add: auth_keys.simps [of T cfg uiBlock key_index st] st0_def [symmetric])
      from "1.IH" [of r st1, OF \<open>key_index < num_keys\<close> cmd0 rF rec0, unfolded snd_sel]
      obtain new where "trace st' = trace st2 @ new" by blast
      then show ?thesis
        using select_tag_result(1) [OF sel] t1 by simp
    qed
  qed
qed

lemma candidate_eq_2: "j < num_keys \<Longrightarrow> candidate j = candidate 2 \<Longrightarrow> j = 2"
proof -
  assume "j < num_keys" and eq: "candidate j = candidate 2"
  then have "j = 0 \<or> j = 1 \<or> j = 2 \<or> j = 3 \<or> j = 4 \<or> j = 5 \<or> j = 6 \<or> j = 7"
    unfolding num_keys_8 by presburger
  then show "j = 2"
    using eq by (elim disjE) (simp_all add: candidate_def keys_def)
qed

text \<open>
  Claim C4. Without a key file, \<open>authenticate\<close> sends the candidate keys of
  \<open>keys\<close> in their declared order, one authentication command per candidate, all
  for the requested block and key letter; every attempt but the last was refused, and the
  last one was accepted exactly when \<open>authenticate\<close> returns true, so no candidate is
  tried after an accepted one; a false result comes only after all \<open>num_keys\<close>
  candidates. A tag that accepts exactly the third candidate gives three attempts and
  success; a tag that accepts no key gives failure.
\<close>

theorem authenticate_tries_keys_in_order:
  assumes "\<not> bUseKeyFile cfg" and "authenticate T cfg b st = (ok, st')"
  shows "let att = auth_attempts (drop (length (trace st)) (trace st')); n = length att in
          1 \<le> n \<and> n \<le> num_keys \<and> (ok \<or> n = num_keys) \<and>
          att = map (\<lambda>j. (auth_cmd cfg, b, candidate j, ok \<and> Suc j = n)) [0 ..< n] \<and>
          ((\<forall>s p. (fst (mifare_io T s (auth_cmd cfg) b p) \<noteq> None) = (take 6 p = candidate 2))
             \<longrightarrow> ok \<and> n = 3) \<and>
          ((\<forall>s p. fst (mifare_io T s (auth_cmd cfg) b p) = None) \<longrightarrow> \<not> ok)"
proof -
  define st0 where "st0 = st\<lparr>mpa_abtUid := memcpy (mpa_abtUid st) 0 (nti_abtUid st) 0 4\<rparr>"
  have run: "auth_keys T cfg b 0 st0 = (ok, st')"
    using assms by (simp add: authenticate_def st0_def)
  obtain new where new: "trace st' = trace st @ new"
    using auth_keys_trace [OF run] by (auto simp: st0_def)
  obtain n where n: "n \<le> num_keys" "if ok then 0 < n else n = num_keys"
    and att: "auth_attempts (trace st') = auth_attempts (trace st0) @
               map (\<lambda>j. (auth_cmd cfg, b, candidate j, ok \<and> Suc j = n)) [0 ..< n]"
    and acc: "ok \<longrightarrow> (\<exists>s p. take 6 p = candidate (n - 1) \<and>
               fst (mifare_io T s (auth_cmd cfg) b p) \<noteq> None)"
    and rej: "\<forall>j. 0 \<le> j \<and> j < n \<and> \<not> (ok \<and> Suc j = n) \<longrightarrow>
               (\<exists>s p. take 6 p = candidate j \<and> fst (mifare_io T s (auth_cmd cfg) b p) = None)"
    using auth_keys_run [OF run] by auto
  have att': "auth_attempts new = map (\<lambda>j. (auth_cmd cfg, b, candidate j, ok \<and> Suc j = n)) [0 ..< n]"
    using att by (simp add: new auth_attempts_append st0_def)
  have len: "length (auth_attempts new) = n" by (simp add: att')
  have pos: "1 \<le> n" using n(2) by (auto simp: num_keys_8 split: if_splits)
  have third: "ok \<and> n = 3"
    if H: "\<forall>s p. (fst (mifare_io T s (auth_cmd cfg) b p) \<noteq> None) = (take 6 p = candidate 2)"
  proof -
    have ok: ok
    proof (rule ccontr)
      assume "\<not> ok"
      then have "2 < n" using n(2) by (simp add: num_keys_8)
      then obtain s p where "take 6 p = candidate 2" "fst (mifare_io T s (auth_cmd cfg) b p) = None"
        using rej \<open>\<not> ok\<close> by blast
      then show False using H by (metis option.distinct(1))
    qed
    then obtain s p where "take 6 p = candidate (n - 1)"
        "fst (mifare_io T s (auth_cmd cfg) b p) \<noteq> None"
      using acc by blast
    then have "candidate (n - 1) = candidate 2" using H by metis
    moreover have "n - 1 < num_keys" using n(1) pos by simp
    ultimately have "n - 1 = 2" by (rule candidate_eq_2 [rotated])
    then show ?thesis using ok by simp
  qed
  have none: "\<not> ok" if "\<forall>s p. fst (mifare_io T s (auth_cmd cfg) b p) = None"
    using acc that by auto
  have okn: "ok \<or> n = num_keys" using n(2) by (auto split: if_splits)
  show ?thesis
    unfolding Let_def new using pos n(1) okn att' third none by (simp add: len)
qed

lemma fixed_reader_io:
  "fst (mifare_io (fixed_reader ok sel) s mc b p) = None \<longleftrightarrow> \<not> ok mc b p"
  "fst (mifare_io (fixed_reader ok sel) s mc b p) \<noteq> None \<longleftrightarrow> ok mc b p"
  by (simp_all add: fixed_reader_def)

theorem authenticate_tries_keys_in_order_witness:
  "fst (authenticate (fixed_reader (\<lambda>mc b p. take 6 p = candidate 2) True) (card_1k True) 63 fresh) \<and>
   auth_attempts (trace (snd (authenticate (fixed_reader (\<lambda>mc b p. take 6 p = candidate 2) True)
       (card_1k True) 63 fresh))) =
     [(MC_AUTH_A, 63, candidate 0, False), (MC_AUTH_A, 63, candidate 1, False),
      (MC_AUTH_A, 63, candidate 2, True)] \<and>
   \<not> fst (authenticate (fixed_reader (\<lambda>mc b p. False) True) (card_1k False) 60 fresh) \<and>
   length (auth_attempts (trace (snd (authenticate (fixed_reader (\<lambda>mc b p. False) True)
       (card_1k False) 60 fresh)))) = 8"
proof -
  let ?T1 = "fixed_reader (\<lambda>mc b p. take 6 p = candidate 2) True"
  let ?T2 = "fixed_reader (\<lambda>mc b p. False) True"
  have nf: "\<not> bUseKeyFile (card_1k True)" "\<not> bUseKeyFile (card_1k False)"
    by (simp_all add: card_1k_def)
  have ac: "auth_cmd (card_1k True) = MC_AUTH_A" by (simp add: auth_cmd_def card_1k_def)
  have tr: "trace fresh = []" by (simp add: fresh_def)
  have upt3: "[0 ..< 3] = [0, 1, 2::nat]" by (simp add: upt_rec)
  let ?r1 = "authenticate ?T1 (card_1k True) 63 fresh"
  let ?r2 = "authenticate ?T2 (card_1k False) 60 fresh"
  have r1: "?r1 = (fst ?r1, snd ?r1)" and r2: "?r2 = (fst ?r2, snd ?r2)" by simp_all
  note i1 = authenticate_tries_keys_in_order [OF nf(1) r1, unfolded Let_def tr list.size drop_0 ac]
  note i2 = authenticate_tries_keys_in_order [OF nf(2) r2, unfolded Let_def tr list.size drop_0]
  have H1: "\<forall>s p. (fst (mifare_io ?T1 s MC_AUTH_A 63 p) \<noteq> None) = (take 6 p = candidate 2)"
    by (simp add: fixed_reader_io)
  from i1 H1 have ok: "fst ?r1" and len: "length (auth_attempts (trace (snd ?r1))) = 3"
    by blast+
  from i1 have eq: "auth_attempts (trace (snd ?r1)) =
      map (\<lambda>j. (MC_AUTH_A, 63, candidate j,
            fst ?r1 \<and> Suc j = length (auth_attempts (trace (snd ?r1)))))
        [0 ..< length (auth_attempts (trace (snd ?r1)))]"
    by blast
  have a1: "auth_attempts (trace (snd ?r1)) =
     [(MC_AUTH_A, 63, candidate 0, False), (MC_AUTH_A, 63, candidate 1, False),
      (MC_AUTH_A, 63, candidate 2, True)]"
    by (subst eq) (simp add: ok len upt3)
  have H2: "\<forall>s p. fst (mifare_io ?T2 s (auth_cmd (card_1k False)) 60 p) = None"
    by (simp add: fixed_reader_io)
  from i2 H2 have nok: "\<not> fst ?r2"
    and len2: "length (auth_attempts (trace (snd ?r2))) = num_keys"
    by blast+
  show ?thesis
    using ok a1 nok len2 unfolding num_keys_8 by simp
qed

lemma first_block_not_trailer: "is_first_block b \<Longrightarrow> get_trailer_block b \<noteq> b"
  by (auto simp: is_first_block_def get_trailer_block_def split: if_splits)

lemma memcpy_key_a:
  "length k = 6 \<Longrightarrow> abtKeyA (memcpy blk 0 k 0 6) = k \<and> drop 6 (memcpy blk 0 k 0 6) = drop 6 blk"
  by (simp add: abtKeyA_def memcpy_def)

lemma memcpy_key_b:
  "length k = 6 \<Longrightarrow> length blk = 16 \<Longrightarrow>
     abtKeyB (memcpy blk 10 k 0 6) = k \<and> take 10 (memcpy blk 10 k 0 6) = take 10 blk"
  by (simp add: abtKeyB_def memcpy_def)

text \<open>
  Claim C10. Without a key file, a successful \<open>authenticate\<close> for block \<open>b\<close> has
  stored the accepted candidate, the key of the last authentication attempt, in the
  entry \<open>b\<close> of \<open>mtKeys\<close> itself: in \<open>abtKeyA\<close> when key A is used and in
  \<open>abtKeyB\<close> otherwise, the other bytes of the entry kept. No other entry of
  \<open>mtKeys\<close> changes; for the first block of a sector the trailer is another block,
  so the trailer's entry is not the one that receives the key.
\<close>

theorem authenticate_caches_key_at_block:
  assumes "\<not> bUseKeyFile cfg" and "authenticate T cfg b st = (True, st')"
    and "b < length (mtKeys st)" and "length (mtKeys st ! b) = 16"
  shows "\<exists>j < num_keys.
     last (auth_attempts (trace st')) = (auth_cmd cfg, b, candidate j, True) \<and>
     (if bUseKeyA cfg
      then abtKeyA (mtKeys st' ! b) = candidate j \<and> drop 6 (mtKeys st' ! b) = drop 6 (mtKeys st ! b)
      else abtKeyB (mtKeys st' ! b) = candidate j \<and> take 10 (mtKeys st' ! b) = take 10 (mtKeys st ! b)) \<and>
     length (mtKeys st') = length (mtKeys st) \<and>
     (\<forall>i. i \<noteq> b \<longrightarrow> mtKeys st' ! i = mtKeys st ! i) \<and>
     (is_first_block b \<longrightarrow>
        get_trailer_block b \<noteq> b \<and>
        mtKeys st' ! get_trailer_block b = mtKeys st ! get_trailer_block b)"
proof -
  define st0 where "st0 = st\<lparr>mpa_abtUid := memcpy (mpa_abtUid st) 0 (nti_abtUid st) 0 4\<rparr>"
  have run: "auth_keys T cfg b 0 st0 = (True, st')"
    using assms(1,2) by (simp add: authenticate_def st0_def)
  obtain n where n: "n \<le> num_keys" "0 < n"
    and att: "auth_attempts (trace st') = auth_attempts (trace st0) @
               map (\<lambda>j. (auth_cmd cfg, b, candidate j, Suc j = n)) [0 ..< n]"
    and mk: "mtKeys st' = (mtKeys st0)[b := memcpy (mtKeys st0 ! b)
               (if bUseKeyA cfg then 0 else 10) (candidate (n - 1)) 0 6]"
    using auth_keys_run [OF run] by auto
  obtain j where j: "n = Suc j" using n(2) by (cases n) simp_all
  have jlt: "j < num_keys" using n(1) j by simp
  have last: "last (auth_attempts (trace st')) = (auth_cmd cfg, b, candidate j, True)"
    unfolding att j by simp
  have mk': "mtKeys st' = (mtKeys st)[b := memcpy (mtKeys st ! b)
               (if bUseKeyA cfg then 0 else 10) (candidate j) 0 6]"
    using mk by (simp add: st0_def j)
  have blk: "mtKeys st' ! b = memcpy (mtKeys st ! b) (if bUseKeyA cfg then 0 else 10) (candidate j) 0 6"
    unfolding mk' using assms(3) by simp
  have field: "if bUseKeyA cfg
      then abtKeyA (mtKeys st' ! b) = candidate j \<and> drop 6 (mtKeys st' ! b) = drop 6 (mtKeys st ! b)
      else abtKeyB (mtKeys st' ! b) = candidate j \<and> take 10 (mtKeys st' ! b) = take 10 (mtKeys st ! b)"
    unfolding blk
    using memcpy_key_a [OF length_candidate [OF jlt]]
      memcpy_key_b [OF length_candidate [OF jlt] assms(4)]
    by simp
  have others: "\<forall>i. i \<noteq> b \<longrightarrow> mtKeys st' ! i = mtKeys st ! i"
    unfolding mk' by simp
  have len: "length (mtKeys st') = length (mtKeys st)"
    unfolding mk' by simp
  show ?thesis
    using jlt last field others len first_block_not_trailer [of b] by blast
qed

theorem authenticate_caches_key_at_block_witness:
  "fst (authenticate (fixed_reader (\<lambda>mc b p. take 6 p = candidate 2) True) (card_1k True) 4 fresh) \<and>
   is_first_block 4 \<and> get_trailer_block 4 = 7 \<and>
   abtKeyA (mtKeys (snd (authenticate (fixed_reader (\<lambda>mc b p. take 6 p = candidate 2) True)
       (card_1k True) 4 fresh)) ! 4) = candidate 2 \<and>
   mtKeys (snd (authenticate (fixed_reader (\<lambda>mc b p. take 6 p = candidate 2) True)
       (card_1k True) 4 fresh)) ! 7 = replicate 16 0"
proof -
  let ?T1 = "fixed_reader (\<lambda>mc b p. take 6 p = candidate 2) True"
  let ?r = "authenticate ?T1 (card_1k True) 4 fresh"
  have nf: "\<not> bUseKeyFile (card_1k True)" and a: "bUseKeyA (card_1k True)"
    by (simp_all add: card_1k_def)
  have ac: "auth_cmd (card_1k True) = MC_AUTH_A" by (simp add: auth_cmd_def card_1k_def)
  have tr: "trace fresh = []" by (simp add: fresh_def)
  have ev: "fst ?r" "auth_attempts (trace (snd ?r)) =
     [(MC_AUTH_A, 4, candidate 0, False), (MC_AUTH_A, 4, candidate 1, False),
      (MC_AUTH_A, 4, candidate 2, True)]"
    by (simp_all add: authenticate_def auth_keys.simps nfc_initiator_mifare_cmd_def
        nfc_initiator_select_tag_def mifare_param_def fixed_reader_def fresh_def card_1k_def
        auth_cmd_def num_keys_8 memcpy_def candidate_def keys_def)
  have r: "?r = (True, snd ?r)" using ev(1) by (simp add: prod_eq_iff)
  have k: "4 < length (mtKeys fresh)" "length (mtKeys fresh ! 4) = 16" "mtKeys fresh ! 7 = replicate 16 0"
    by (simp_all add: fresh_def)
  have g: "is_first_block 4" "get_trailer_block 4 = 7"
    by (simp_all add: is_first_block_def get_trailer_block_def)
  obtain j where j: "j < num_keys"
      "last (auth_attempts (trace (snd ?r))) = (auth_cmd (card_1k True), 4, candidate j, True)"
      "abtKeyA (mtKeys (snd ?r) ! 4) = candidate j"
      "mtKeys (snd ?r) ! get_trailer_block 4 = mtKeys fresh ! get_trailer_block 4"
    using authenticate_caches_key_at_block [OF nf r k(1,2)] a g(1) by auto
  have "candidate j = candidate 2" using j(2) unfolding ev(2) by simp
  then show ?thesis using ev(1) g j(3,4) k(3) by simp
qed

section \<open>Properties of the payload extraction\<close>

lemma overwrite_nil: "overwrite P idx [] = P"
  by (simp add: overwrite_def)

lemma overwrite_overwrite:
  "idx \<le> length P \<Longrightarrow>
     overwrite (overwrite P idx xs) (idx + length xs) ys = overwrite P idx (xs @ ys)"
  by (simp add: overwrite_def add.commute add.left_commute)

lemma length_dump_block: "16 * i + 16 \<le> length D \<Longrightarrow> length (dump_block D i) = 16"
  by (simp add: dump_block_def)

lemma memcpy_overwrite:
  "16 * (4 * s + b) + 16 \<le> length D \<Longrightarrow>
     memcpy P idx D (s * 16 * 4 + b * 16) 16 = overwrite P idx (dump_block D (4 * s + b))"
  by (simp add: memcpy_def overwrite_def dump_block_def algebra_simps)

lemma extract_blocks_overwrite:
  assumes "b \<le> 3" "idx \<le> length P" "16 * (4 * s + 3) \<le> length D"
  shows "extract_blocks D s b (P, idx) =
           (overwrite P idx (concat (map (\<lambda>i. dump_block D (4 * s + i)) [b ..< 3])),
            idx + 16 * (3 - b))"
  using assms
proof (induction D s b "(P, idx)" arbitrary: P idx rule: extract_blocks.induct)
  case (1 abDump uiSectorIndex uiBlockIndex pbPayload szPayloadIndex)
  show ?case
  proof (cases "uiBlockIndex < 3")
    case False
    then have "uiBlockIndex = 3" using "1.prems"(1) by simp
    then show ?thesis
      by (simp add: extract_blocks.simps [of _ _ 3] overwrite_nil)
  next
    case True
    have len: "16 * (4 * uiSectorIndex + uiBlockIndex) + 16 \<le> length abDump"
      using True "1.prems"(3) by simp
    let ?blk = "dump_block abDump (4 * uiSectorIndex + uiBlockIndex)"
    have l16: "length ?blk = 16" using len by (rule length_dump_block)
    have m: "memcpy pbPayload szPayloadIndex abDump (uiSectorIndex * 16 * 4 + uiBlockIndex * 16) 16
        = overwrite pbPayload szPayloadIndex ?blk"
      using len by (rule memcpy_overwrite)
    have le: "szPayloadIndex + 16 \<le> length (overwrite pbPayload szPayloadIndex ?blk)"
      using "1.prems"(2) l16 by (simp add: overwrite_def)
    have IH: "extract_blocks abDump uiSectorIndex (uiBlockIndex + 1)
          (overwrite pbPayload szPayloadIndex ?blk, szPayloadIndex + 16) =
        (overwrite (overwrite pbPayload szPayloadIndex ?blk) (szPayloadIndex + 16)
           (concat (map (\<lambda>i. dump_block abDump (4 * uiSectorIndex + i)) [uiBlockIndex + 1 ..< 3])),
         szPayloadIndex + 16 + 16 * (3 - (uiBlockIndex + 1)))"
      using "1.hyps" [OF True] True le "1.prems"(3) unfolding m by simp
    have upt: "[uiBlockIndex ..< 3] = uiBlockIndex # [uiBlockIndex + 1 ..< 3]"
      using True by (simp add: upt_conv_Cons)
    have step: "extract_blocks abDump uiSectorIndex uiBlockIndex (pbPayload, szPayloadIndex) =
        extract_blocks abDump uiSectorIndex (uiBlockIndex + 1)
          (memcpy pbPayload szPayloadIndex abDump (uiSectorIndex * 16 * 4 + uiBlockIndex * 16) 16,
           szPayloadIndex + 16)"
      by (simp only: extract_blocks.simps [of _ _ uiBlockIndex] True if_True)
    have ov: "overwrite (overwrite pbPayload szPayloadIndex ?blk) (szPayloadIndex + 16)
          (concat (map (\<lambda>i. dump_block abDump (4 * uiSectorIndex + i)) [uiBlockIndex + 1 ..< 3])) =
        overwrite pbPayload szPayloadIndex
          (concat (map (\<lambda>i. dump_block abDump (4 * uiSectorIndex + i)) [uiBlockIndex ..< 3]))"
      using overwrite_overwrite [OF "1.prems"(2), of ?blk] l16 unfolding upt by simp
    have ar: "szPayloadIndex + 16 + 16 * (3 - (uiBlockIndex + 1)) = szPayloadIndex + 16 * (3 - uiBlockIndex)"
      using True by simp
    show ?thesis
      unfolding step m IH ov ar ..

  qed
qed

lemma length_sector_payload:
  "16 * (4 * s + 3) \<le> length D \<Longrightarrow> length (sector_payload D s) = 48"
proof -
  assume len: "16 * (4 * s + 3) \<le> length D"
  have upt3: "[0 ..< 3] = [0, 1, 2::nat]" by (simp add: upt_rec)
  have "length (dump_block D (4 * s + i)) = 16" if "i < 3" for i
    using that len by (intro length_dump_block) simp
  from this [of 0] this [of 1] this [of 2] show ?thesis
    by (simp add: sector_payload_def upt3)
qed

lemma length_concat_sectors:
  "(\<And>s. s \<in> set xs \<Longrightarrow> length (f s) = 48) \<Longrightarrow> length (concat (map f xs)) = 48 * length xs"
  by (induction xs) simp_all

lemma extract_sectors_overwrite:
  assumes "s \<le> 16" "idx \<le> length P" "1024 \<le> length D"
  shows "extract_sectors D s (P, idx) =
           (overwrite P idx (concat (map (sector_payload D) [s ..< 16])), idx + 48 * (16 - s))"
  using assms
proof (induction D s "(P, idx)" arbitrary: P idx rule: extract_sectors.induct)
  case (1 abDump uiSectorIndex P idx)
  show ?case
  proof (cases "uiSectorIndex < 16")
    case False
    then have "uiSectorIndex = 16" using "1.prems"(1) by simp
    then show ?thesis
      by (simp add: extract_sectors.simps [of _ 16] overwrite_nil)
  next
    case True
    have len: "16 * (4 * uiSectorIndex + 3) \<le> length abDump"
      using True "1.prems"(3) by simp
    have l48: "length (sector_payload abDump uiSectorIndex) = 48"
      using len by (rule length_sector_payload)
    have inner: "extract_blocks abDump uiSectorIndex 0 (P, idx) =
        (overwrite P idx (sector_payload abDump uiSectorIndex), idx + 48)"
      using extract_blocks_overwrite [OF _ "1.prems"(2) len, of 0]
      by (simp add: sector_payload_def)
    have le: "idx + 48 \<le> length (overwrite P idx (sector_payload abDump uiSectorIndex))"
      using "1.prems"(2) l48 by (simp add: overwrite_def)
    have step: "extract_sectors abDump uiSectorIndex (P, idx) =
        extract_sectors abDump (uiSectorIndex + 1)
          (overwrite P idx (sector_payload abDump uiSectorIndex), idx + 48)"
      by (simp only: extract_sectors.simps [of _ uiSectorIndex] True if_True inner)
    have IH: "extract_sectors abDump (uiSectorIndex + 1)
          (overwrite P idx (sector_payload abDump uiSectorIndex), idx + 48) =
        (overwrite (overwrite P idx (sector_payload abDump uiSectorIndex)) (idx + 48)
           (concat (map (sector_payload abDump) [uiSectorIndex + 1 ..< 16])),
         idx + 48 + 48 * (16 - (uiSectorIndex + 1)))"
      using "1.hyps" [OF True inner] True le "1.prems"(3) by simp
    have upt: "[uiSectorIndex ..< 16] = uiSectorIndex # [uiSectorIndex + 1 ..< 16]"
      using True by (simp add: upt_conv_Cons)
    have ov: "overwrite (overwrite P idx (sector_payload abDump uiSectorIndex)) (idx + 48)
          (concat (map (sector_payload abDump) [uiSectorIndex + 1 ..< 16])) =
        overwrite P idx (concat (map (sector_payload abDump) [uiSectorIndex ..< 16]))"
      using overwrite_overwrite [OF "1.prems"(2), of "sector_payload abDump uiSectorIndex"] l48
      unfolding upt by simp
    have ar: "idx + 48 + 48 * (16 - (uiSectorIndex + 1)) = idx + 48 * (16 - uiSectorIndex)"
      using True by simp
    show ?thesis
      unfolding step IH ov ar ..
  qed
qed

lemma payload_blocks_eq:
  "payload_blocks = concat (map (\<lambda>s. map (\<lambda>i. 4 * s + i) [0 ..< 3]) [1 ..< 16])"
  by (simp add: payload_blocks_def is_trailer_block_def upt_rec)

lemma concat_map_nested:
  "concat (map g (concat (map h xs))) = concat (map (\<lambda>s. concat (map g (h s))) xs)"
  by (induction xs) simp_all

text \<open>
  Claim C6. For every dump buffer that holds at least the 1024 bytes of a 1K card, the
  first 720 bytes that \<open>mifare_classic_extract_payload\<close> leaves in the output are the
  16-byte blocks of the dump that are neither in sector 0 nor trailers, blocks 4, 5, 6,
  8, 9, 10, ... , 60, 61, 62, in ascending order: 15 sectors of 3 data blocks. The
  output beyond byte 720 is what it was before the call.
\<close>

theorem extract_payload_1k:
  assumes "1024 \<le> length abDump" and "720 \<le> length pbPayload"
  shows "take 720 (mifare_classic_extract_payload abDump pbPayload) =
           concat (map (dump_block abDump) payload_blocks) \<and>
         drop 720 (mifare_classic_extract_payload abDump pbPayload) = drop 720 pbPayload \<and>
         length (mifare_classic_extract_payload abDump pbPayload) = length pbPayload"
proof -
  let ?pay = "concat (map (sector_payload abDump) [1 ..< 16])"
  have res: "mifare_classic_extract_payload abDump pbPayload = overwrite pbPayload 0 ?pay"
    using extract_sectors_overwrite [of 1 0 pbPayload abDump] assms(1)
    by (simp add: mifare_classic_extract_payload_def)
  have "length ?pay = 48 * length [1 ..< 16::nat]"
    using assms(1) by (intro length_concat_sectors length_sector_payload) simp
  then have len: "length ?pay = 720" by simp
  have eq: "concat (map (dump_block abDump) payload_blocks) = ?pay"
    unfolding payload_blocks_eq sector_payload_def
    by (simp only: concat_map_nested map_map o_def)
  show ?thesis
    unfolding res eq using len assms(2) by (simp add: overwrite_def)
qed

lemma length_marked: "length (concat (map (\<lambda>b. replicate 16 (f b)) [0 ..< n])) = 16 * n"
  by (induction n) simp_all

lemma block_of_marked:
  "i < n \<Longrightarrow> take 16 (drop (16 * i) (concat (map (\<lambda>b. replicate 16 (f b)) [0 ..< n]))) =
     replicate 16 (f i)"
proof (induction n)
  case 0
  then show ?case by simp
next
  case (Suc n)
  show ?case
  proof (cases "i < n")
    case True
    then show ?thesis using Suc.IH by (simp add: length_marked)
  next
    case False
    then have "i = n" using Suc.prems by simp
    then show ?thesis by (simp add: length_marked)
  qed
qed

theorem extract_payload_1k_witness:
  "take 720 (mifare_classic_extract_payload marked_dump (replicate 4096 0)) =
     concat (map (\<lambda>b. replicate 16 (of_nat b)) payload_blocks) \<and>
   take 5 payload_blocks = [4, 5, 6, 8, 9] \<and> length payload_blocks = 45 \<and>
   drop 720 (mifare_classic_extract_payload marked_dump (replicate 4096 0)) = replicate 3376 0"
proof -
  have l: "1024 \<le> length marked_dump" "720 \<le> length (replicate 4096 (0::byte_t))"
    by (simp_all add: marked_dump_def length_marked)
  have pb: "payload_blocks = [4, 5, 6, 8, 9, 10, 12, 13, 14, 16, 17, 18, 20, 21, 22, 24, 25, 26,
      28, 29, 30, 32, 33, 34, 36, 37, 38, 40, 41, 42, 44, 45, 46, 48, 49, 50, 52, 53, 54,
      56, 57, 58, 60, 61, 62]"
    by (simp add: payload_blocks_eq upt_rec)
  have "\<forall>b \<in> set payload_blocks. b < 256" by (simp add: payload_blocks_def)
  then have m: "map (dump_block marked_dump) payload_blocks =
      map (\<lambda>b. replicate 16 (of_nat b)) payload_blocks"
    by (simp add: dump_block_def marked_dump_def block_of_marked)
  show ?thesis
    using extract_payload_1k [OF l] unfolding m by (simp add: pb)
qed

section \<open>What an authentication leaves alone\<close>

lemma read_results_append: "read_results (xs @ ys) = read_results xs @ read_results ys"
  by (induction xs rule: read_results.induct) simp_all

lemma write_results_append: "write_results (xs @ ys) = write_results xs @ write_results ys"
  by (induction xs rule: write_results.induct) simp_all

lemma auth_cmd_neq: "auth_cmd cfg \<noteq> MC_READ" "auth_cmd cfg \<noteq> MC_WRITE"
  by (simp_all add: auth_cmd_def)

lemma mifare_cmd_data:
  assumes "nfc_initiator_mifare_cmd T mc b st = (ok, st')" and "mc \<noteq> MC_READ"
  shows "mpd_abtData st' = mpd_abtData st"
  using assms
  by (auto simp: nfc_initiator_mifare_cmd_def split: prod.splits option.splits)

lemma quiet_refl: "quiet st st"
  by (simp add: quiet_def)

lemma quiet_trans: "quiet st st1 \<Longrightarrow> quiet st1 st2 \<Longrightarrow> quiet st st2"
  by (auto simp: quiet_def read_results_append write_results_append)

lemma quiet_auth_cmd:
  assumes "nfc_initiator_mifare_cmd T (auth_cmd cfg) b st = (ok, st')"
  shows "quiet st st'"
  using mifare_cmd_result [OF assms] mifare_cmd_data [OF assms auth_cmd_neq(1)] auth_cmd_neq [of cfg]
  by (simp add: quiet_def)

lemma quiet_select:
  assumes "nfc_initiator_select_tag T init pnti st = (ok, st')"
  shows "quiet st st'"
  using select_tag_result [OF assms] by (simp add: quiet_def)

lemma quiet_upd:
  "quiet (st\<lparr>mpa_abtKey := k\<rparr>) st' \<Longrightarrow> quiet st st'"
  "quiet (st\<lparr>mpa_abtUid := u\<rparr>) st' \<Longrightarrow> quiet st st'"
  "quiet st st' \<Longrightarrow> quiet st (st'\<lparr>mtKeys := m\<rparr>)"
  by (simp_all add: quiet_def)

lemma auth_keys_quiet:
  "auth_keys T cfg b i st = (ok, st') \<Longrightarrow> quiet st st'"
proof (induction T cfg b i st rule: auth_keys.induct)
  case (1 T cfg uiBlock key_index st)
  show ?case
  proof (cases "key_index < num_keys")
    case False
    then show ?thesis using "1.prems" by (simp add: auth_keys.simps quiet_refl)
  next
    case True
    define st0 where "st0 = st\<lparr>mpa_abtKey := memcpy (mpa_abtKey st) 0 keys (key_index * 6) 6\<rparr>"
    obtain r st1 where cmd: "nfc_initiator_mifare_cmd T (auth_cmd cfg) uiBlock st0 = (r, st1)"
      by (cases "nfc_initiator_mifare_cmd T (auth_cmd cfg) uiBlock st0")
    have q1: "quiet st st1"
      using quiet_auth_cmd [OF cmd] unfolding st0_def by (rule quiet_upd)
    show ?thesis
    proof (cases r)
      case True
      then have "st' = st1\<lparr>mtKeys := (mtKeys st1)[uiBlock :=
                     (if bUseKeyA cfg
                      then memcpy (mtKeys st1 ! uiBlock) 0 (mpa_abtKey st1) 0 6
                      else memcpy (mtKeys st1 ! uiBlock) 10 (mpa_abtKey st1) 0 6)]\<rparr>"
        using "1.prems" \<open>key_index < num_keys\<close> cmd
        by (simp add: auth_keys.simps [of T cfg uiBlock key_index st] st0_def [symmetric])
      then show ?thesis using q1 by (simp add: quiet_upd(3))
    next
      case False
      obtain r2 st2 where sel:
        "nfc_initiator_select_tag T (Some (mpa_abtUid st1)) False st1 = (r2, st2)"
        by (cases "nfc_initiator_select_tag T (Some (mpa_abtUid st1)) False st1")
      have cmd0: "(r, st1) = nfc_initiator_mifare_cmd T (auth_cmd cfg) uiBlock
          (st\<lparr>mpa_abtKey := memcpy (mpa_abtKey st) 0 keys (key_index * 6) 6\<rparr>)"
        using cmd by (simp add: st0_def)
      have rF: "r = False" using False by simp
      have snd_sel: "snd (nfc_initiator_select_tag T (Some (mpa_abtUid st1)) False st1) = st2"
        using sel by simp
      have rec0: "auth_keys T cfg uiBlock (key_index + 1)
          (snd (nfc_initiator_select_tag T (Some (mpa_abtUid st1)) False st1)) = (ok, st')"
        using "1.prems" \<open>key_index < num_keys\<close> cmd False
        by (simp add: auth_keys.simps [of T cfg uiBlock key_index st] st0_def [symmetric])
      have "quiet st2 st'"
        using "1.IH" [of r st1, OF \<open>key_index < num_keys\<close> cmd0 rF rec0] unfolding snd_sel .
      then show ?thesis
        using q1 quiet_select [OF sel] quiet_trans by blast
    qed
  qed
qed

lemma authenticate_quiet:
  assumes "authenticate T cfg b st = (ok, st')"
  shows "quiet st st'"
proof (cases "bUseKeyFile cfg")
  case True
  define st1 where "st1 = st\<lparr>mpa_abtUid := memcpy (mpa_abtUid st) 0 (nti_abtUid st) 0 4\<rparr>"
  define st2 where "st2 = st1\<lparr>mpa_abtKey :=
      (if bUseKeyA cfg
       then memcpy (mpa_abtKey st1) 0 (abtKeyA (mtKeys st1 ! get_trailer_block b)) 0 6
       else memcpy (mpa_abtKey st1) 0 (abtKeyB (mtKeys st1 ! get_trailer_block b)) 0 6)\<rparr>"
  have "nfc_initiator_mifare_cmd T (auth_cmd cfg) b st2 = (ok, st')"
    using assms True by (cases "bUseKeyA cfg") (simp_all add: authenticate_def Let_def st1_def st2_def)
  then have "quiet st2 st'" by (rule quiet_auth_cmd)
  then have "quiet st1 st'" unfolding st2_def by (rule quiet_upd)
  then show ?thesis unfolding st1_def by (rule quiet_upd)
next
  case False
  then have "auth_keys T cfg b 0
      (st\<lparr>mpa_abtUid := memcpy (mpa_abtUid st) 0 (nti_abtUid st) 0 4\<rparr>) = (ok, st')"
    using assms by (simp add: authenticate_def)
  then have "quiet (st\<lparr>mpa_abtUid := memcpy (mpa_abtUid st) 0 (nti_abtUid st) 0 4\<rparr>) st'"
    by (rule auth_keys_quiet)
  then show ?thesis by (rule quiet_upd)
qed

lemma authenticate_accepts:
  assumes "\<And>s b p. fst (mifare_io T s (auth_cmd cfg) b p) \<noteq> None"
  shows "fst (authenticate T cfg b st)"
proof -
  have cmd: "fst (nfc_initiator_mifare_cmd T (auth_cmd cfg) b st0)" for st0 :: "'a state"
    using assms [of "pnd st0" b "mifare_param (auth_cmd cfg) st0"]
    by (auto simp: nfc_initiator_mifare_cmd_def split: prod.splits option.splits)
  show ?thesis
  proof (cases "bUseKeyFile cfg")
    case True
    then show ?thesis by (simp add: authenticate_def Let_def cmd)
  next
    case False
    define st0 where "st0 = st\<lparr>mpa_abtUid := memcpy (mpa_abtUid st) 0 (nti_abtUid st) 0 4,
          mpa_abtKey := memcpy (mpa_abtKey st) 0 keys (0 * 6) 6\<rparr>"
    obtain st1 where "nfc_initiator_mifare_cmd T (auth_cmd cfg) b st0 = (True, st1)"
      using cmd [of st0] by (cases "nfc_initiator_mifare_cmd T (auth_cmd cfg) b st0") simp
    then show ?thesis
      using False
      by (simp add: authenticate_def auth_keys.simps [of T cfg b 0] num_keys_8 st0_def)
  qed
qed

section \<open>Steps of the read pass\<close>

lemma extendsI: "trace st' = trace st @ new \<Longrightarrow> extends st st' \<and> added st st' = new"
  by (simp add: extends_def added_def)

lemma extends_trace: "extends st st' \<Longrightarrow> trace st' = trace st @ added st st'"
  unfolding extends_def added_def by (metis append_take_drop_id)

lemma extends_refl: "extends st st" "added st st = []"
  by (simp_all add: extends_def added_def)

lemma extends_trans:
  assumes "extends st st1" "extends st1 st2"
  shows "extends st st2" and "added st st2 = added st st1 @ added st1 st2"
proof -
  have "trace st2 = trace st @ (added st st1 @ added st1 st2)"
    using extends_trace [OF assms(1)] extends_trace [OF assms(2)] by simp
  then show "extends st st2" and "added st st2 = added st st1 @ added st1 st2"
    using extendsI by blast+
qed

lemma extends_upd:
  "extends (st\<lparr>stdout := out\<rparr>) st' = extends st st'"
  "extends st (st'\<lparr>stdout := out\<rparr>) = extends st st'"
  "extends st (st'\<lparr>mtDump := d\<rparr>) = extends st st'"
  "extends (st\<lparr>mpd_abtData := m\<rparr>) st' = extends st st'"
  "added (st\<lparr>stdout := out\<rparr>) st' = added st st'"
  "added st (st'\<lparr>stdout := out\<rparr>) = added st st'"
  "added st (st'\<lparr>mtDump := d\<rparr>) = added st st'"
  "added (st\<lparr>mpd_abtData := m\<rparr>) st' = added st st'"
  by (simp_all add: extends_def added_def)

lemma quiet_extends:
  assumes "quiet st st'"
  shows "extends st st'" "read_results (added st st') = []" "write_results (added st st') = []"
  using assms unfolding quiet_def by (auto dest: extendsI)

lemma mifare_cmd_extends:
  assumes "nfc_initiator_mifare_cmd T mc b st = (ok, st')"
  shows "extends st st'" "added st st' = [Mifare mc b (mifare_param mc st) ok]"
  using mifare_cmd_result(2) [OF assms] extendsI by blast+

lemma select_tag_extends:
  assumes "nfc_initiator_select_tag T init pnti st = (ok, st')"
  shows "extends st st'" "added st st' = [Select init ok]"
  using select_tag_result(1) [OF assms] extendsI by blast+

lemma print_extends:
  assumes "print_success_or_failure bF cnt st = (cnt', st')"
  shows "extends st st'" "added st st' = []"
  using assms by (auto simp: print_success_or_failure_def extends_def added_def)

lemma authenticate_accepted_event:
  assumes "authenticate T cfg b st = (ok, st')"
  shows "ok = (\<exists>k. (auth_cmd cfg, b, k, True) \<in> set (auth_attempts (added st st')))"
proof -
  note q = quiet_extends [OF authenticate_quiet [OF assms]]
  have tr: "auth_attempts (trace st') = auth_attempts (trace st) @ auth_attempts (added st st')"
    using extends_trace [OF q(1)] by (simp add: auth_attempts_append)
  show ?thesis
  proof (cases "bUseKeyFile cfg")
    case True
    define st1 where "st1 = st\<lparr>mpa_abtUid := memcpy (mpa_abtUid st) 0 (nti_abtUid st) 0 4\<rparr>"
    define st2 where "st2 = st1\<lparr>mpa_abtKey :=
        (if bUseKeyA cfg
         then memcpy (mpa_abtKey st1) 0 (abtKeyA (mtKeys st1 ! get_trailer_block b)) 0 6
         else memcpy (mpa_abtKey st1) 0 (abtKeyB (mtKeys st1 ! get_trailer_block b)) 0 6)\<rparr>"
    have cmd: "nfc_initiator_mifare_cmd T (auth_cmd cfg) b st2 = (ok, st')"
      using assms True by (cases "bUseKeyA cfg") (simp_all add: authenticate_def Let_def st1_def st2_def)
    have "trace st' = trace st @ [Mifare (auth_cmd cfg) b (mifare_param (auth_cmd cfg) st2) ok]"
      using mifare_cmd_result(2) [OF cmd] by (simp add: st2_def st1_def)
    then have "added st st' = [Mifare (auth_cmd cfg) b (mifare_param (auth_cmd cfg) st2) ok]"
      using extendsI by blast
    then show ?thesis using auth_cmd_is_auth [of cfg] by auto
  next
    case False
    define st0 where "st0 = st\<lparr>mpa_abtUid := memcpy (mpa_abtUid st) 0 (nti_abtUid st) 0 4\<rparr>"
    have run: "auth_keys T cfg b 0 st0 = (ok, st')"
      using assms False by (simp add: authenticate_def st0_def)
    obtain n where n: "if ok then 0 < n else n = num_keys"
      and att: "auth_attempts (trace st') = auth_attempts (trace st0) @
                 map (\<lambda>j. (auth_cmd cfg, b, candidate j, ok \<and> Suc j = n)) [0 ..< n]"
      using auth_keys_run [OF run] by auto
    have a: "auth_attempts (added st st') =
        map (\<lambda>j. (auth_cmd cfg, b, candidate j, ok \<and> Suc j = n)) [0 ..< n]"
      using att tr by (simp add: st0_def)
    show ?thesis
    proof (cases ok)
      case True
      then have "n - 1 < n" "Suc (n - 1) = n" using n by simp_all
      then have "(auth_cmd cfg, b, candidate (n - 1), True) \<in> set (auth_attempts (added st st'))"
        unfolding a using True by (auto simp: image_iff intro!: bexI [of _ "n - 1"])
      then show ?thesis using True by blast
    next
      case False
      then show ?thesis unfolding a by auto
    qed
  qed
qed

lemma read_blocks_numeral:
  "read_blocks T cfg (numeral k) bFailure uiReadBlocks st =
     (if is_trailer_block (pred_numeral k) then
        (case read_trailer T cfg (pred_numeral k) bFailure uiReadBlocks st of
           Inl r \<Rightarrow> r
         | Inr (bF, cnt, st1) \<Rightarrow> read_blocks T cfg (pred_numeral k) bF cnt st1)
      else
        (case read_data T (pred_numeral k) bFailure st of
           (bF, st1) \<Rightarrow> read_blocks T cfg (pred_numeral k) bF uiReadBlocks st1))"
  by (simp add: numeral_eq_Suc)

lemma read_data_step:
  assumes "read_data T iBlock bFailure st = (bF, st')"
  shows "extends st st'"
    and "read_results (added st st') = (if bFailure then [] else [(iBlock, \<not> bF)])"
    and "bFailure \<Longrightarrow> bF"
proof -
  show "extends st st'"
    using assms
    by (auto simp: read_data_def extends_refl extends_upd split: if_splits prod.splits bool.splits
        dest: mifare_cmd_extends)
  show "read_results (added st st') = (if bFailure then [] else [(iBlock, \<not> bF)])"
    using assms
    by (auto simp: read_data_def extends_refl extends_upd split: if_splits prod.splits bool.splits
        dest: mifare_cmd_extends)
  show "bFailure \<Longrightarrow> bF"
    using assms by (auto simp: read_data_def)
qed


lemma read_trailer_auth_step:
  assumes "read_trailer_auth T cfg iBlock cnt st = res"
  shows "extends st (case res of Inl (ret, st') \<Rightarrow> st' | Inr (bF, cnt', st') \<Rightarrow> st')"
    and "case res of
           Inl (ret, st') \<Rightarrow> read_results (added st st') = []
         | Inr (bF, cnt', st') \<Rightarrow> \<not> bF \<and> (\<exists>r. read_results (added st st') = [(iBlock, r)])"
proof -
  obtain ok st1 where au: "authenticate T cfg iBlock st = (ok, st1)"
    by (cases "authenticate T cfg iBlock st")
  note q = quiet_extends [OF authenticate_quiet [OF au]]
  obtain r st2 where rd: "nfc_initiator_mifare_cmd T MC_READ iBlock st1 = (r, st2)"
    by (cases "nfc_initiator_mifare_cmd T MC_READ iBlock st1")
  note m = mifare_cmd_extends [OF rd]
  note t = extends_trans [OF q(1) m(1)]
  have a2: "read_results (added st st2) = [(iBlock, r)]"
    by (simp add: t(2) read_results_append q(2) m(2))
  show "extends st (case res of Inl (ret, st') \<Rightarrow> st' | Inr (bF, cnt', st') \<Rightarrow> st')"
    using assms au rd q(1) t(1)
    by (cases ok; cases r) (auto simp: read_trailer_auth_def extends_upd)
  show "case res of
           Inl (ret, st') \<Rightarrow> read_results (added st st') = []
         | Inr (bF, cnt', st') \<Rightarrow> \<not> bF \<and> (\<exists>r. read_results (added st st') = [(iBlock, r)])"
    using assms au rd q(2) a2
    by (cases ok; cases r) (auto simp: read_trailer_auth_def extends_upd)
qed

lemma read_trailer_step:
  assumes "read_trailer T cfg iBlock bFailure cnt st = res"
  shows "extends st (case res of Inl (ret, st') \<Rightarrow> st' | Inr (bF, cnt', st') \<Rightarrow> st')"
    and "case res of
           Inl (ret, st') \<Rightarrow> read_results (added st st') = []
         | Inr (bF, cnt', st') \<Rightarrow> \<not> bF \<and> (\<exists>r. read_results (added st st') = [(iBlock, r)])"
proof -
  obtain cnt1 st1 where pr: "(if iBlock \<noteq> uiBlocks cfg
      then print_success_or_failure bFailure cnt st else (cnt, st)) = (cnt1, st1)"
    by (cases "if iBlock \<noteq> uiBlocks cfg then print_success_or_failure bFailure cnt st else (cnt, st)")
  have e1: "extends st st1" "added st st1 = []"
    using pr by (auto simp: extends_refl split: if_splits dest: print_extends)
  obtain ok st2 where sel: "nfc_initiator_select_tag T None True st1 = (ok, st2)"
    by (cases "nfc_initiator_select_tag T None True st1")
  note s = select_tag_extends [OF sel]
  note t2 = extends_trans [OF e1(1) s(1)]
  have r2: "read_results (added st st2) = []"
    by (simp add: t2(2) e1(2) s(2))
  define st3 where "st3 = (if bFailure then st2 else st1)"
  have e3: "extends st st3" "read_results (added st st3) = []"
    using e1 t2(1) r2 by (simp_all add: st3_def)
  define res3 where "res3 = read_trailer_auth T cfg iBlock cnt1 st3"
  note a = read_trailer_auth_step [OF res3_def [symmetric]]
  have res: "res = (if bFailure \<and> \<not> ok
      then Inl (True, st2\<lparr>stdout := stdout st2 @ [Tag_removed]\<rparr>) else res3)"
    using assms pr sel by (auto simp: read_trailer_def res3_def st3_def)
  show "extends st (case res of Inl (ret, st') \<Rightarrow> st' | Inr (bF, cnt', st') \<Rightarrow> st')"
  proof (cases "bFailure \<and> \<not> ok")
    case True
    then show ?thesis using res t2(1) by (simp add: extends_upd)
  next
    case False
    then show ?thesis using res a(1) e3(1) extends_trans(1) by auto
  qed
  show "case res of
           Inl (ret, st') \<Rightarrow> read_results (added st st') = []
         | Inr (bF, cnt', st') \<Rightarrow> \<not> bF \<and> (\<exists>r. read_results (added st st') = [(iBlock, r)])"
  proof (cases "bFailure \<and> \<not> ok")
    case True
    then show ?thesis using res r2 by (simp add: extends_upd)
  next
    case False
    then have "res = res3" using res by auto
    then show ?thesis
      using a e3 by (auto split: sum.splits simp: extends_trans(2) read_results_append)
  qed
qed


lemma read_blocks_shape:
  "read_blocks T cfg n bF cnt st = (ret, st') \<Longrightarrow>
     extends st st' \<and> read_shape n bF (read_results (added st st'))"
proof (induction n arbitrary: bF cnt st)
  case 0
  then show ?case
    by (auto simp: extends_upd split: prod.splits dest: print_extends)
next
  case (Suc i)
  show ?case
  proof (cases "is_trailer_block i")
    case True
    define res where "res = read_trailer T cfg i bF cnt st"
    note t = read_trailer_step [OF res_def [symmetric]]
    show ?thesis
    proof (cases res)
      case (Inl a)
      then have "a = (ret, st')" using Suc.prems True by (simp add: res_def [symmetric])
      then show ?thesis using t Inl True by simp
    next
      case (Inr b)
      obtain bF1 cnt1 st1 where b: "b = (bF1, cnt1, st1)" by (cases b)
      have run: "read_blocks T cfg i bF1 cnt1 st1 = (ret, st')"
        using Suc.prems True Inr b by (simp add: res_def [symmetric])
      note IH = Suc.IH [OF run]
      obtain r where r: "\<not> bF1" "read_results (added st st1) = [(i, r)]" "extends st st1"
        using t Inr b by auto
      have "read_results (added st st') = (i, r) # read_results (added st1 st')"
        using extends_trans(2) [OF r(3) conjunct1 [OF IH]] r(2) by (simp add: read_results_append)
      then show ?thesis
        using IH r(1,3) True extends_trans(1) by auto
    qed
  next
    case False
    obtain bF1 st1 where rd: "read_data T i bF st = (bF1, st1)"
      by (cases "read_data T i bF st")
    note d = read_data_step [OF rd]
    have run: "read_blocks T cfg i bF1 cnt st1 = (ret, st')"
      using Suc.prems False rd by simp
    note IH = Suc.IH [OF run]
    have "read_results (added st st') =
        (if bF then [] else [(i, \<not> bF1)]) @ read_results (added st1 st')"
      using extends_trans(2) [OF d(1) conjunct1 [OF IH]] d(2) by (simp add: read_results_append)
    then show ?thesis
      using IH d(1,3) False extends_trans(1) by auto
  qed
qed

section \<open>Containment of a failed read\<close>














section \<open>The reads of a run with a reader whose answers are known\<close>

lemma read_answer:
  assumes "reads_decided T cfg okr" "nfc_initiator_mifare_cmd T MC_READ b st = (r, st')"
  shows "r = okr b"
  using mifare_cmd_result(1) [OF assms(2)] assms(1) by (simp add: reads_decided_def)

lemma select_answer:
  assumes "reads_decided T cfg okr"
  shows "fst (nfc_initiator_select_tag T init pnti st)"
proof -
  have "fst (select_io T (pnd st) init) \<noteq> None"
    using assms by (simp add: reads_decided_def)
  then show ?thesis
    by (cases "select_io T (pnd st) init")
      (auto simp: nfc_initiator_select_tag_def split: option.splits)
qed

lemma read_data_plan:
  assumes "reads_decided T cfg okr" "read_data T i bF st = (bF1, st1)"
  shows "bF1 = (bF \<or> \<not> okr i)"
  using assms
  by (auto simp: read_data_def split: if_splits prod.splits bool.splits dest: read_answer)

lemma read_trailer_auth_plan:
  assumes "reads_decided T cfg okr"
  shows "\<exists>cnt' st'. read_trailer_auth T cfg i cnt st = Inr (False, cnt', st') \<and>
           extends st st' \<and> read_results (added st st') = [(i, okr i)]"
proof -
  obtain st1 where au: "authenticate T cfg i st = (True, st1)"
    using authenticate_accepts [of T cfg i st] assms
    by (cases "authenticate T cfg i st") (auto simp: reads_decided_def)
  note q = quiet_extends [OF authenticate_quiet [OF au]]
  obtain r st2 where rd: "nfc_initiator_mifare_cmd T MC_READ i st1 = (r, st2)"
    by (cases "nfc_initiator_mifare_cmd T MC_READ i st1")
  have r: "r = okr i" using read_answer [OF assms rd] .
  note m = mifare_cmd_extends [OF rd]
  note t = extends_trans [OF q(1) m(1)]
  have a2: "read_results (added st st2) = [(i, okr i)]"
    by (simp add: t(2) read_results_append q(2) m(2) r)
  show ?thesis
    using au rd t(1) a2 by (cases r) (auto simp: read_trailer_auth_def extends_upd)
qed

lemma read_trailer_plan:
  assumes "reads_decided T cfg okr"
  shows "\<exists>cnt' st'. read_trailer T cfg i bF cnt st = Inr (False, cnt', st') \<and>
           extends st st' \<and> read_results (added st st') = [(i, okr i)]"
proof -
  obtain cnt1 st1 where pr: "(if i \<noteq> uiBlocks cfg
      then print_success_or_failure bF cnt st else (cnt, st)) = (cnt1, st1)"
    by (cases "if i \<noteq> uiBlocks cfg then print_success_or_failure bF cnt st else (cnt, st)")
  have e1: "extends st st1" "added st st1 = []"
    using pr by (auto simp: extends_refl split: if_splits dest: print_extends)
  obtain st2 where sel: "nfc_initiator_select_tag T None True st1 = (True, st2)"
    using select_answer [OF assms, of None True st1]
    by (cases "nfc_initiator_select_tag T None True st1") simp
  note s = select_tag_extends [OF sel]
  note t2 = extends_trans [OF e1(1) s(1)]
  define st3 where "st3 = (if bF then st2 else st1)"
  have e3: "extends st st3" "read_results (added st st3) = []"
    using e1 t2 s(2) by (simp_all add: st3_def)
  obtain cnt' st' where a: "read_trailer_auth T cfg i cnt1 st3 = Inr (False, cnt', st')"
      "extends st3 st'" "read_results (added st3 st') = [(i, okr i)]"
    using read_trailer_auth_plan [OF assms] by blast
  have "read_trailer T cfg i bF cnt st = Inr (False, cnt', st')"
    unfolding read_trailer_def pr using sel a(1) by (cases bF) (simp_all add: st3_def)
  moreover have "extends st st'" "read_results (added st st') = [(i, okr i)]"
    using extends_trans [OF e3(1) a(2)] e3(2) a(3) by (simp_all add: read_results_append)
  ultimately show ?thesis by blast
qed

lemma read_blocks_plan:
  assumes "reads_decided T cfg okr"
  shows "read_results (added st (snd (read_blocks T cfg n bF cnt st))) = read_plan okr n bF"
proof (induction n arbitrary: bF cnt st)
  case 0
  then show ?case
    by (simp add: print_success_or_failure_def added_def)
next
  case (Suc i)
  show ?case
  proof (cases "is_trailer_block i")
    case True
    obtain cnt1 st1 where t: "read_trailer T cfg i bF cnt st = Inr (False, cnt1, st1)"
        "extends st st1" "read_results (added st st1) = [(i, okr i)]"
      using read_trailer_plan [OF assms] by blast
    obtain ret st' where run: "read_blocks T cfg i False cnt1 st1 = (ret, st')"
      by (cases "read_blocks T cfg i False cnt1 st1")
    have e: "extends st1 st'" using read_blocks_shape [OF run] by simp
    have "read_results (added st1 st') = read_plan okr i False"
      using Suc.IH [of st1 False cnt1] run by simp
    then have "read_results (added st st') = (i, okr i) # read_plan okr i False"
      using extends_trans(2) [OF t(2) e] t(3) by (simp add: read_results_append)
    then show ?thesis using True t(1) run by simp
  next
    case False
    obtain bF1 st1 where rd: "read_data T i bF st = (bF1, st1)"
      by (cases "read_data T i bF st")
    note d = read_data_step [OF rd]
    have b1: "bF1 = (bF \<or> \<not> okr i)" using read_data_plan [OF assms rd] .
    obtain ret st' where run: "read_blocks T cfg i bF1 cnt st1 = (ret, st')"
      by (cases "read_blocks T cfg i bF1 cnt st1")
    have e: "extends st1 st'" using read_blocks_shape [OF run] by simp
    have "read_results (added st1 st') = read_plan okr i bF1"
      using Suc.IH [of st1 bF1 cnt] run by simp
    then have "read_results (added st st') =
        (if bF then [] else [(i, \<not> bF1)]) @ read_plan okr i bF1"
      using extends_trans(2) [OF d(1) e] d(2) by (simp add: read_results_append)
    then show ?thesis using False rd run b1 by auto
  qed
qed

lemma read_card_plan:
  assumes "reads_decided T cfg okr"
  shows "read_results (added st (snd (read_card T cfg st))) =
           read_plan okr (Suc (uiBlocks cfg)) False"
  using read_blocks_plan [OF assms,
      of "st\<lparr>stdout := stdout st @ [Reading_out (uiBlocks cfg + 1)]\<rparr>" "Suc (uiBlocks cfg)" False 0]
  by (simp only: read_card_def extends_upd)






section \<open>Runs in which the read pass goes wrong\<close>

lemma write_blocks_Suc_0:
  "write_blocks T cfg (Suc 0) bFailure uiWriteBlocks st =
     (if Suc 0 \<le> uiBlocks cfg then
        (case (if is_first_block (Suc 0)
               then write_first T cfg (Suc 0) bFailure uiWriteBlocks st
               else Inr (bFailure, uiWriteBlocks, st)) of
           Inl r \<Rightarrow> r
         | Inr (bF, cnt, st1) \<Rightarrow>
             (case write_block T (Suc 0) bF st1 of
                (bF2, st2) \<Rightarrow> write_blocks T cfg 2 bF2 cnt st2))
      else
        (case print_success_or_failure bFailure uiWriteBlocks st of
           (cnt, st1) \<Rightarrow>
             (True, st1\<lparr>stdout := stdout st1 @ [Bar, Done_written cnt (uiBlocks cfg + 1)]\<rparr>)))"
proof -
  have e: "Suc 0 + 1 = (2::nat)" by simp
  show ?thesis
    by (subst write_blocks.simps, unfold e) (rule refl)
qed

lemmas run_simps =
  auth_keys.simps authenticate_def read_trailer_def read_trailer_auth_def read_data_def
  write_first_def write_auth_def write_block_def print_success_or_failure_def
  nfc_initiator_mifare_cmd_def nfc_initiator_select_tag_def mifare_param_def
  is_trailer_block_def is_first_block_def auth_cmd_def num_keys_8 keys_def
  memcpy_def abtKeyA_def abtKeyB_def abtAccessBits_def
  fixed_reader_def fresh_def card_1k_def

text \<open>
  Claim C2. A failed reselection in the middle of a pass is to make the operation report
  failure. \<open>write_card\<close> does: with a reader that refuses the write of block 1 and
  then finds no tag, it prints that the tag was removed and returns false. \<open>read_card\<close>
  does not: with a reader that refuses the read of block 62 and then finds no tag, it
  prints that the tag was removed and returns true (the source has \<open>return 1\<close> there),
  so \<open>main\<close> writes the dump to the file.
\<close>

theorem read_card_true_after_tag_removed:
  "fst (read_card (fixed_reader (\<lambda>mc b p. \<not> (mc = MC_READ \<and> b = 62)) False) (card_1k True) fresh) \<and>
   stdout (snd (read_card (fixed_reader (\<lambda>mc b p. \<not> (mc = MC_READ \<and> b = 62)) False)
       (card_1k True) fresh)) = [Reading_out 64, Mark True, Tag_removed] \<and>
   main_read (fixed_reader (\<lambda>mc b p. \<not> (mc = MC_READ \<and> b = 62)) False) (card_1k True) fresh
     \<noteq> None \<and>
   \<not> fst (write_card (fixed_reader (\<lambda>mc b p. \<not> (mc = MC_WRITE \<and> b = 1)) False)
       (card_1k True) fresh) \<and>
   last (stdout (snd (write_card (fixed_reader (\<lambda>mc b p. \<not> (mc = MC_WRITE \<and> b = 1)) False)
       (card_1k True) fresh))) = Tag_removed"
proof -
  let ?T = "fixed_reader (\<lambda>mc b p. \<not> (mc = MC_READ \<and> b = 62)) False"
  let ?W = "fixed_reader (\<lambda>mc b p. \<not> (mc = MC_WRITE \<and> b = 1)) False"
  have r: "fst (read_card ?T (card_1k True) fresh)"
    "stdout (snd (read_card ?T (card_1k True) fresh)) = [Reading_out 64, Mark True, Tag_removed]"
    by (simp_all add: read_card_def read_blocks_numeral run_simps)
  have m: "main_read ?T (card_1k True) fresh \<noteq> None"
    using r(1) by (cases "read_card ?T (card_1k True) fresh") (auto simp: main_read_def)
  have w: "\<not> fst (write_card ?W (card_1k True) fresh)"
    "last (stdout (snd (write_card ?W (card_1k True) fresh))) = Tag_removed"
    by (simp_all add: write_card_def write_blocks.simps [of _ _ 0] write_blocks_Suc_0
        write_blocks.simps [of _ _ 2] write_blocks.simps [of _ _ 3] write_blocks.simps [of _ _ 4]
        run_simps)
  show ?thesis using r m w by simp
qed

lemma plan_63: "read_plan (\<lambda>b. b \<noteq> 63) 64 False = (63, False) # map (\<lambda>b. (b, True)) (rev [0 ..< 63])"
  by code_simp

text \<open>
  Claim C1. A failed read of any block, trailer or data, is to mark the sector as failed
  so that its remaining blocks are not attempted. For a trailer the source does not do so:
  on a 1K card whose reader refuses the read of the trailer block 63 and nothing else,
  the data blocks 62, 61 and 60 of that sector are read all the same, and so is every
  other block.
\<close>

theorem trailer_read_failure_goes_unmarked:
  "read_results (added fresh (snd (read_card
       (fixed_reader (\<lambda>mc b p. \<not> (mc = MC_READ \<and> b = 63)) True) (card_1k True) fresh))) =
     (63, False) # map (\<lambda>b. (b, True)) (rev [0 ..< 63])"
proof -
  have u: "Suc (uiBlocks (card_1k True)) = 64" by (simp add: card_1k_def)
  have d: "reads_decided (fixed_reader (\<lambda>mc b p. \<not> (mc = MC_READ \<and> b = 63)) True)
      (card_1k True) (\<lambda>b. b \<noteq> 63)"
    by (simp add: reads_decided_def fixed_reader_def auth_cmd_def)
  show ?thesis
    using read_card_plan [OF d, of fresh] by (simp only: u plan_63)
qed

section \<open>Steps of the write pass\<close>

lemma trailer_bytes:
  "length blk = 16 \<Longrightarrow> abtKeyA blk @ abtAccessBits blk @ abtKeyB blk = blk"
proof -
  assume l: "length blk = 16"
  have "take 6 blk @ take 4 (drop 6 blk) @ take 6 (drop 10 blk) =
      take 6 blk @ drop 6 (take 10 blk) @ drop 10 (take 16 blk)"
    by (simp add: drop_take)
  also have "\<dots> = take 6 (take 10 blk) @ drop 6 (take 10 blk) @ drop 10 (take 16 blk)"
    by simp
  also have "\<dots> = take 10 blk @ drop 10 (take 16 blk)"
    by (simp only: append_assoc [symmetric] append_take_drop_id)
  also have "\<dots> = take 10 (take 16 blk) @ drop 10 (take 16 blk)" by simp
  also have "\<dots> = blk" using l by (simp only: append_take_drop_id) simp
  finally show ?thesis by (simp add: abtKeyA_def abtAccessBits_def abtKeyB_def)
qed

lemma rebuilt_trailer:
  assumes "length blk = 16" "length old = 16"
  shows "memcpy (memcpy (memcpy old 0 (abtKeyA blk) 0 6) 6 (abtAccessBits blk) 0 4) 10 (abtKeyB blk) 0 6
    = abtKeyA blk @ abtAccessBits blk @ abtKeyB blk"
  using assms by (simp add: memcpy_def abtKeyA_def abtAccessBits_def abtKeyB_def)

lemma copied_block:
  assumes "length blk = 16" "length old = 16"
  shows "memcpy old 0 blk 0 16 = blk"
  using assms by (simp add: memcpy_def)

lemma write_block_sends:
  assumes "write_block T b bF st = (bF', st')"
    and "length (mtDump st ! b) = 16" and "length (mpd_abtData st) = 16"
  shows "extends st st' \<and>
    (if is_trailer_block b then
       \<exists>r. added st st' =
              [Mifare MC_WRITE b
                 (abtKeyA (mtDump st ! b) @ abtAccessBits (mtDump st ! b) @ abtKeyB (mtDump st ! b))
                 r] \<and>
           bF' = (bF \<or> \<not> r)
     else if b \<noteq> 0 \<and> \<not> bF then
       \<exists>r. added st st' = [Mifare MC_WRITE b (mtDump st ! b) r] \<and> bF' = (\<not> r)
     else added st st' = [] \<and> bF' = bF)"
proof (cases "is_trailer_block b")
  case True
  define st0 where "st0 = st\<lparr>mpd_abtData :=
      memcpy (memcpy (memcpy (mpd_abtData st) 0 (abtKeyA (mtDump st ! b)) 0 6)
                6 (abtAccessBits (mtDump st ! b)) 0 4)
        10 (abtKeyB (mtDump st ! b)) 0 6\<rparr>"
  obtain r st1 where cmd: "nfc_initiator_mifare_cmd T MC_WRITE b st0 = (r, st1)"
    by (cases "nfc_initiator_mifare_cmd T MC_WRITE b st0")
  note m = mifare_cmd_extends [OF cmd]
  have par: "mifare_param MC_WRITE st0 =
      abtKeyA (mtDump st ! b) @ abtAccessBits (mtDump st ! b) @ abtKeyB (mtDump st ! b)"
    using rebuilt_trailer [OF assms(2,3)] by (simp add: mifare_param_def st0_def)
  have res: "bF' = (bF \<or> \<not> r)"
      "st' = (if r then st1 else st1\<lparr>stdout := stdout st1 @ [Trailer_write_failed b]\<rparr>)"
    using assms(1) True cmd by (cases r; simp add: write_block_def st0_def [symmetric])+
  have e: "extends st st'" "added st st' = added st0 st1"
    using m(1) unfolding res(2) st0_def by (simp_all add: extends_upd)
  show ?thesis
    using True e m(2) par res(1) by simp
next
  case False
  show ?thesis
  proof (cases "b \<noteq> 0 \<and> \<not> bF")
    case skip: False
    then have "bF' = bF" "st' = st"
      using assms(1) False by (auto simp: write_block_def split: if_splits)
    then show ?thesis using False skip by (simp add: extends_refl)
  next
    case True
    define st0 where "st0 = st\<lparr>mpd_abtData := memcpy (mpd_abtData st) 0 (mtDump st ! b) 0 16\<rparr>"
    obtain r st1 where cmd: "nfc_initiator_mifare_cmd T MC_WRITE b st0 = (r, st1)"
      by (cases "nfc_initiator_mifare_cmd T MC_WRITE b st0")
    note m = mifare_cmd_extends [OF cmd]
    have par: "mifare_param MC_WRITE st0 = mtDump st ! b"
      using copied_block [OF assms(2,3)] by (simp add: mifare_param_def st0_def)
    have res: "bF' = (\<not> r)" "st' = st1"
      using assms(1) False True cmd by (cases r; simp add: write_block_def st0_def [symmetric])+
    have e: "extends st st'" "added st st' = added st0 st1"
      using m(1) unfolding res(2) st0_def by (simp_all add: extends_upd)
    show ?thesis
      using False True e m(2) par res(1) by simp
  qed
qed

lemma write_targets_trans:
  assumes "extends st st1" "extends st1 st2"
  shows "write_targets st st2 = write_targets st st1 @ write_targets st1 st2"
  using extends_trans(2) [OF assms] by (simp add: write_targets_def write_results_append)

lemma write_targets_upd:
  "write_targets (st\<lparr>stdout := out\<rparr>) st' = write_targets st st'"
  "write_targets st (st'\<lparr>stdout := out\<rparr>) = write_targets st st'"
  "write_targets (st\<lparr>mpd_abtData := m\<rparr>) st' = write_targets st st'"
  by (simp_all add: write_targets_def extends_upd)

lemma write_auth_step:
  assumes "write_auth T cfg b cnt st = res"
  shows "case res of
           Inl (ret, st') \<Rightarrow> \<not> ret \<and> extends st st' \<and> write_targets st st' = []
         | Inr (bF', cnt', st') \<Rightarrow> extends st st' \<and> write_targets st st' = []"
proof -
  obtain ok st1 where au: "authenticate T cfg b st = (ok, st1)"
    by (cases "authenticate T cfg b st")
  note q = quiet_extends [OF authenticate_quiet [OF au]]
  show ?thesis
    using assms au q
    by (cases ok) (auto simp: write_auth_def extends_upd write_targets_def)
qed

lemma write_first_step:
  assumes "write_first T cfg b bF cnt st = res"
  shows "case res of
           Inl (ret, st') \<Rightarrow> \<not> ret \<and> extends st st' \<and> write_targets st st' = []
         | Inr (bF', cnt', st') \<Rightarrow> extends st st' \<and> write_targets st st' = []"
proof -
  obtain cnt1 st1 where pr: "(if b \<noteq> uiBlocks cfg
      then print_success_or_failure bF cnt st else (cnt, st)) = (cnt1, st1)"
    by (cases "if b \<noteq> uiBlocks cfg then print_success_or_failure bF cnt st else (cnt, st)")
  have e1: "extends st st1" "write_targets st st1 = []"
    using pr by (auto simp: extends_refl write_targets_def split: if_splits dest: print_extends)
  obtain ok st2 where sel: "nfc_initiator_select_tag T None True st1 = (ok, st2)"
    by (cases "nfc_initiator_select_tag T None True st1")
  note s = select_tag_extends [OF sel]
  have e2: "extends st st2" "write_targets st st2 = []"
    using extends_trans(1) [OF e1(1) s(1)] write_targets_trans [OF e1(1) s(1)] e1(2) s(2)
    by (simp_all add: write_targets_def)
  define st3 where "st3 = (if bF then st2 else st1)"
  have e3: "extends st st3" "write_targets st st3 = []"
    using e1 e2 by (simp_all add: st3_def)
  define res3 where "res3 = write_auth T cfg b cnt1 st3"
  note a = write_auth_step [OF res3_def [symmetric]]
  have res: "res = (if bF \<and> \<not> ok
      then Inl (False, st2\<lparr>stdout := stdout st2 @ [Tag_removed]\<rparr>) else res3)"
    unfolding assms [symmetric] write_first_def pr using sel
    by (cases bF; cases ok) (simp_all add: res3_def st3_def)
  show ?thesis
  proof (cases "bF \<and> \<not> ok")
    case True
    then show ?thesis using res e2 by (simp add: extends_upd write_targets_upd)
  next
    case False
    then have "res = res3" using res by auto
    then show ?thesis
      using a e3 extends_trans(1) [OF e3(1)] write_targets_trans [OF e3(1)]
      by (auto split: sum.splits)
  qed
qed

lemma write_block_targets:
  assumes "write_block T b bF st = (bF', st')"
  shows "extends st st'"
    and "write_targets st st' = (if is_trailer_block b \<or> (b \<noteq> 0 \<and> \<not> bF) then [b] else [])"
proof -
  have "extends st st' \<and>
      write_targets st st' = (if is_trailer_block b \<or> (b \<noteq> 0 \<and> \<not> bF) then [b] else [])"
  proof (cases "is_trailer_block b")
    case True
    define st0 where "st0 = st\<lparr>mpd_abtData :=
        memcpy (memcpy (memcpy (mpd_abtData st) 0 (abtKeyA (mtDump st ! b)) 0 6)
                6 (abtAccessBits (mtDump st ! b)) 0 4)
          10 (abtKeyB (mtDump st ! b)) 0 6\<rparr>"
    obtain r st1 where cmd: "nfc_initiator_mifare_cmd T MC_WRITE b st0 = (r, st1)"
      by (cases "nfc_initiator_mifare_cmd T MC_WRITE b st0")
    note m = mifare_cmd_extends [OF cmd]
    have "st' = (if r then st1 else st1\<lparr>stdout := stdout st1 @ [Trailer_write_failed b]\<rparr>)"
      using assms True cmd by (cases r; simp add: write_block_def st0_def [symmetric])
    then have "extends st st'" "added st st' = added st0 st1"
      using m(1) unfolding st0_def by (simp_all add: extends_upd)
    then show ?thesis
      using True m(2) by (simp add: write_targets_def)
  next
    case False
    show ?thesis
    proof (cases "b \<noteq> 0 \<and> \<not> bF")
      case skip: False
      then have "st' = st" using assms False by (auto simp: write_block_def split: if_splits)
      then show ?thesis using False skip by (simp add: extends_refl write_targets_def)
    next
      case True
      define st0 where "st0 = st\<lparr>mpd_abtData := memcpy (mpd_abtData st) 0 (mtDump st ! b) 0 16\<rparr>"
      obtain r st1 where cmd: "nfc_initiator_mifare_cmd T MC_WRITE b st0 = (r, st1)"
        by (cases "nfc_initiator_mifare_cmd T MC_WRITE b st0")
      note m = mifare_cmd_extends [OF cmd]
      have "st' = st1"
        using assms False True cmd by (cases r; simp add: write_block_def st0_def [symmetric])
      then have "extends st st'" "added st st' = added st0 st1"
        using m(1) unfolding st0_def by (simp_all add: extends_upd)
      then show ?thesis
        using True m(2) by (simp add: write_targets_def)
    qed
  qed
  then show "extends st st'"
    and "write_targets st st' = (if is_trailer_block b \<or> (b \<noteq> 0 \<and> \<not> bF) then [b] else [])"
    by simp_all
qed

lemma not_trailer_0: "\<not> is_trailer_block 0"
  by (simp add: is_trailer_block_def)

lemma write_blocks_targets:
  "write_blocks T cfg b bF cnt st = (ret, st') \<Longrightarrow>
     extends st st' \<and> sorted_wrt (<) (write_targets st st') \<and>
     (\<forall>t \<in> set (write_targets st st'). b \<le> t \<and> 0 < t \<and> t \<le> uiBlocks cfg) \<and>
     (ret \<longrightarrow> (\<forall>t. b \<le> t \<and> t \<le> uiBlocks cfg \<and> is_trailer_block t
                  \<longrightarrow> t \<in> set (write_targets st st')))"
proof (induction T cfg b bF cnt st arbitrary: ret st' rule: write_blocks.induct)
  case (1 T cfg uiBlock bFailure uiWriteBlocks st)
  show ?case
  proof (cases "uiBlock \<le> uiBlocks cfg")
    case False
    then have "extends st st'" "write_targets st st' = []"
      using "1.prems"
      by (auto simp: write_blocks.simps [of T cfg uiBlock] extends_upd write_targets_upd
          write_targets_def split: prod.splits dest: print_extends)
    then show ?thesis using False by auto
  next
    case True
    define res where "res = (if is_first_block uiBlock
          then write_first T cfg uiBlock bFailure uiWriteBlocks st
          else Inr (bFailure, uiWriteBlocks, st))"
    have f: "case res of
           Inl (ret, st') \<Rightarrow> \<not> ret \<and> extends st st' \<and> write_targets st st' = []
         | Inr (bF', cnt', st') \<Rightarrow> extends st st' \<and> write_targets st st' = []"
      using write_first_step [of T cfg uiBlock bFailure uiWriteBlocks st res]
      by (auto simp: res_def extends_refl write_targets_def)
    show ?thesis
    proof (cases res)
      case (Inl a)
      then have "a = (ret, st')"
        using "1.prems" True by (simp add: write_blocks.simps [of T cfg uiBlock] res_def [symmetric])
      then show ?thesis using f Inl by auto
    next
      case (Inr c)
      obtain bF1 cnt1 st1 where c: "c = (bF1, cnt1, st1)" by (cases c)
      obtain bF2 st2 where wb: "write_block T uiBlock bF1 st1 = (bF2, st2)"
        by (cases "write_block T uiBlock bF1 st1")
      have run: "write_blocks T cfg (uiBlock + 1) bF2 cnt1 st2 = (ret, st')"
        using "1.prems" True Inr c wb
        by (simp add: write_blocks.simps [of T cfg uiBlock] res_def [symmetric])
      note IH = "1.IH" [OF True Inr [unfolded res_def] c [symmetric] refl wb [symmetric] run]
      have IH': "extends st2 st' \<and> sorted_wrt (<) (write_targets st2 st') \<and>
          (\<forall>t \<in> set (write_targets st2 st'). uiBlock + 1 \<le> t \<and> 0 < t \<and> t \<le> uiBlocks cfg) \<and>
          (ret \<longrightarrow> (\<forall>t. uiBlock + 1 \<le> t \<and> t \<le> uiBlocks cfg \<and> is_trailer_block t
                  \<longrightarrow> t \<in> set (write_targets st2 st')))"
        using IH by blast
      have e1: "extends st st1" "write_targets st st1 = []"
        using f Inr c by simp_all
      note b = write_block_targets [OF wb]
      have e2: "extends st st2" "write_targets st st2 = write_targets st1 st2"
        using extends_trans(1) [OF e1(1) b(1)] write_targets_trans [OF e1(1) b(1)] e1(2)
        by simp_all
      have e3: "extends st st'" "write_targets st st' = write_targets st1 st2 @ write_targets st2 st'"
        using extends_trans(1) [OF e2(1)] write_targets_trans [OF e2(1)] IH' e2(2)
        by simp_all
      have pos: "write_targets st1 st2 = [uiBlock] \<and> 0 < uiBlock \<or>
          write_targets st1 st2 = [] \<and> \<not> is_trailer_block uiBlock"
        using b(2) not_trailer_0 by (cases "uiBlock = 0") auto
      have tr: "t \<in> set (write_targets st st')"
        if "ret" "uiBlock \<le> t" "t \<le> uiBlocks cfg" "is_trailer_block t" for t
      proof (cases "t = uiBlock")
        case True
        then have "write_targets st1 st2 = [uiBlock]" using pos that(4) by blast
        then show ?thesis unfolding e3(2) using True by simp
      next
        case False
        then have "uiBlock + 1 \<le> t" using that(2) by simp
        moreover have "\<forall>t. uiBlock + 1 \<le> t \<and> t \<le> uiBlocks cfg \<and> is_trailer_block t
            \<longrightarrow> t \<in> set (write_targets st2 st')"
          using IH' that(1) by blast
        ultimately have "t \<in> set (write_targets st2 st')" using that(3,4) by blast
        then show ?thesis unfolding e3(2) by simp
      qed
      from IH' have ih2: "sorted_wrt (<) (write_targets st2 st')"
        and ih3: "\<forall>t \<in> set (write_targets st2 st'). uiBlock + 1 \<le> t \<and> 0 < t \<and> t \<le> uiBlocks cfg"
        by blast+
      have w2: "uiBlock < t \<and> 0 < t \<and> t \<le> uiBlocks cfg" if "t \<in> set (write_targets st2 st')" for t
        using ih3 that by fastforce
      have srt: "sorted_wrt (<) (write_targets st1 st2 @ write_targets st2 st')"
      proof (cases "write_targets st1 st2 = []")
        case True
        then show ?thesis using ih2 by simp
      next
        case False
        then have "write_targets st1 st2 = [uiBlock]" using pos by blast
        then show ?thesis using ih2 w2 by simp
      qed
      have bnd: "\<forall>t \<in> set (write_targets st1 st2 @ write_targets st2 st').
          uiBlock \<le> t \<and> 0 < t \<and> t \<le> uiBlocks cfg"
      proof
        fix t assume "t \<in> set (write_targets st1 st2 @ write_targets st2 st')"
        then consider "t \<in> set (write_targets st1 st2)" | "t \<in> set (write_targets st2 st')"
          by auto
        then show "uiBlock \<le> t \<and> 0 < t \<and> t \<le> uiBlocks cfg"
        proof cases
          case 1
          then have "t = uiBlock \<and> 0 < uiBlock" using pos by (cases "write_targets st1 st2 = []") auto
          then show ?thesis using True by simp
        next
          case 2
          then show ?thesis using w2 [of t] by simp
        qed
      qed
      show ?thesis
        unfolding e3(2) using e3(1) srt bnd tr [unfolded e3(2)] by blast
    qed
  qed
qed

text \<open>
  Claim C9. Whatever the reader answers and whatever the dump holds, among the write
  commands that \<open>write_card\<close> sends there is none for block 0.
\<close>

theorem write_card_never_writes_block_0:
  "0 \<notin> fst ` set (write_results (added st (snd (write_card T cfg st))))"
proof -
  define st0 where "st0 = st\<lparr>stdout := stdout st @ [Writing (uiBlocks cfg + 1)]\<rparr>"
  obtain ret st' where run: "write_blocks T cfg 0 False 0 st0 = (ret, st')"
    by (cases "write_blocks T cfg 0 False 0 st0")
  have "\<forall>t \<in> set (write_targets st0 st'). 0 < t"
    using write_blocks_targets [OF run] by blast
  moreover have "snd (write_card T cfg st) = st'"
    using run by (simp only: write_card_def st0_def [symmetric] snd_conv)
  ultimately show ?thesis
    by (auto simp: write_targets_def st0_def extends_upd)
qed

section \<open>Blocks and their sectors\<close>

lemma trailer_iff:
  "is_trailer_block b \<longleftrightarrow> (if b < 128 then b mod 4 = 3 else b mod 16 = 15)"
  by (simp add: is_trailer_block_def mod_Suc)

lemma below_128: "b < 128 \<Longrightarrow> b mod 4 \<noteq> 3 \<Longrightarrow> Suc b < 128"
proof -
  assume "b < 128" "b mod 4 \<noteq> 3"
  then have "b \<noteq> 127" by auto
  then show ?thesis using \<open>b < 128\<close> by simp
qed

lemma trailer_next:
  assumes "\<not> is_trailer_block b"
  shows "get_trailer_block (Suc b) = get_trailer_block b" and "\<not> is_first_block (Suc b)"
    and "b < get_trailer_block b"
proof -
  show "get_trailer_block (Suc b) = get_trailer_block b"
  proof (cases "b < 128")
    case True
    then have m: "b mod 4 \<noteq> 3" using assms by (simp add: trailer_iff)
    have "b mod 4 < 4" by simp
    then show ?thesis
      using True below_128 [OF True m] m by (simp add: get_trailer_block_def mod_Suc)
  next
    case False
    then have m: "b mod 16 \<noteq> 15" using assms by (simp add: trailer_iff)
    have "b mod 16 < 16" by simp
    then show ?thesis
      using False m by (simp add: get_trailer_block_def mod_Suc)
  qed
  show "\<not> is_first_block (Suc b)"
  proof (cases "b < 128")
    case True
    then have m: "b mod 4 \<noteq> 3" using assms by (simp add: trailer_iff)
    then show ?thesis
      using below_128 [OF True m] by (simp add: is_first_block_def mod_Suc)
  next
    case False
    then have m: "b mod 16 \<noteq> 15" using assms by (simp add: trailer_iff)
    then show ?thesis
      using False by (simp add: is_first_block_def mod_Suc)
  qed
  show "b < get_trailer_block b"
  proof (cases "b < 128")
    case True
    then have m: "b mod 4 \<noteq> 3" using assms by (simp add: trailer_iff)
    have "b mod 4 < 4" by simp
    then show ?thesis using True m by (simp add: get_trailer_block_def)
  next
    case False
    then have m: "b mod 16 \<noteq> 15" using assms by (simp add: trailer_iff)
    have "b mod 16 < 16" by simp
    then show ?thesis using False m by (simp add: get_trailer_block_def)
  qed
qed

lemma trailer_self:
  assumes "is_trailer_block b"
  shows "get_trailer_block b = b" and "is_first_block (Suc b)"
proof -
  show "get_trailer_block b = b"
    using assms by (simp add: trailer_iff get_trailer_block_def split: if_splits)
  show "is_first_block (Suc b)"
  proof (cases "Suc b < 128")
    case True
    then show ?thesis using assms by (simp add: trailer_iff is_first_block_def mod_Suc)
  next
    case False
    show ?thesis
    proof (cases "b = 127")
      case True
      then show ?thesis by (simp add: is_first_block_def)
    next
      case ne: False
      then have "\<not> b < 128" using False by simp
      then show ?thesis using assms False by (simp add: trailer_iff is_first_block_def mod_Suc)
    qed
  qed
qed

lemma first_not_trailer: "is_first_block b \<Longrightarrow> \<not> is_trailer_block b"
  by (simp add: trailer_iff is_first_block_def split: if_splits)

lemma le_trailer: "b \<le> get_trailer_block b"
  unfolding get_trailer_block_def by (cases "b < 128") simp_all

lemma trailer_of_block:
  "get_trailer_block b = (if b < 128 then 4 * (b div 4) + 3 else 16 * (b div 16) + 15)"
proof (cases "b < 128")
  case True
  have d: "b = 4 * (b div 4) + b mod 4" by simp
  have m: "b mod 4 < 4" by simp
  have "b + (3 - b mod 4) = 4 * (b div 4) + 3" using d m by linarith
  then show ?thesis using True by (simp only: get_trailer_block_def if_True)
next
  case False
  have d: "b = 16 * (b div 16) + b mod 16" by simp
  have m: "b mod 16 < 16" by simp
  have "b + (15 - b mod 16) = 16 * (b div 16) + 15" using d m by linarith
  then show ?thesis using False by (simp only: get_trailer_block_def if_False)
qed

lemma trailer_is_trailer: "is_trailer_block (get_trailer_block b)"
proof (cases "b < 128")
  case True
  have g: "get_trailer_block b = 4 * (b div 4) + 3"
    using True by (simp only: trailer_of_block if_True)
  have "b div 4 < 32" using True by simp
  then have "4 * (b div 4) + 3 < 128" by simp
  moreover have "(4 * (b div 4) + 3) mod 4 = 3" by (simp add: mod_mult_self4)
  ultimately show ?thesis unfolding g trailer_iff by simp
next
  case False
  have d: "b = 16 * (b div 16) + b mod 16" by simp
  have m: "b mod 16 < 16" by simp
  have g: "get_trailer_block b = 16 * (b div 16) + 15"
    using False by (simp only: trailer_of_block if_False)
  have "128 \<le> 16 * (b div 16) + 15" using False d m by linarith
  moreover have "(16 * (b div 16) + 15) mod 16 = 15" by (simp add: mod_mult_self4)
  ultimately show ?thesis unfolding g trailer_iff by simp
qed

lemma in_sector:
  assumes "is_trailer_block t"
  shows "b \<in> set (sector_blocks t) \<longleftrightarrow> get_trailer_block b = t"
proof (cases "t < 128")
  case True
  then have t3: "t mod 4 = 3" using assms by (simp add: trailer_iff)
  have td: "t = 4 * (t div 4) + t mod 4" by simp
  have t: "t = 4 * (t div 4) + 3" using td t3 by simp
  have bd: "b = 4 * (b div 4) + b mod 4" by simp
  have bm: "b mod 4 < 4" by simp
  have bd16: "b = 16 * (b div 16) + b mod 16" by simp
  show ?thesis
  proof (cases "b < 128")
    case b: True
    have "b \<in> set (sector_blocks t) \<longleftrightarrow> b div 4 = t div 4"
      using True bd bm by (simp add: sector_blocks_def; linarith)
    also have "\<dots> \<longleftrightarrow> 4 * (b div 4) + 3 = t" using t by linarith
    finally show ?thesis using b by (simp add: trailer_of_block)
  next
    case b: False
    then have "b \<notin> set (sector_blocks t)"
      using True t by (simp add: sector_blocks_def; linarith)
    moreover have "get_trailer_block b \<noteq> t"
      using b True bd16 by (simp add: trailer_of_block; linarith)
    ultimately show ?thesis by simp
  qed
next
  case False
  then have t3: "t mod 16 = 15" using assms by (simp add: trailer_iff)
  have td: "t = 16 * (t div 16) + t mod 16" by simp
  have t: "t = 16 * (t div 16) + 15" using td t3 by simp
  have bd: "b = 16 * (b div 16) + b mod 16" by simp
  have bm: "b mod 16 < 16" by simp
  have bd4: "b = 4 * (b div 4) + b mod 4" by simp
  show ?thesis
  proof (cases "b < 128")
    case b: False
    have "b \<in> set (sector_blocks t) \<longleftrightarrow> b div 16 = t div 16"
      using False bd bm by (simp add: sector_blocks_def; linarith)
    also have "\<dots> \<longleftrightarrow> 16 * (b div 16) + 15 = t" using t by linarith
    finally show ?thesis using b by (simp add: trailer_of_block)
  next
    case b: True
    have t16: "8 \<le> t div 16" using False by simp
    then have "b \<notin> set (sector_blocks t)"
      using False b by (simp add: sector_blocks_def)
    moreover have "b div 4 < 32" using b by simp
    then have "get_trailer_block b \<noteq> t"
      using b False by (simp add: trailer_of_block)
    ultimately show ?thesis by simp
  qed
qed

lemma data_blocks_first:
  assumes "is_first_block b"
  shows "data_blocks (get_trailer_block b) = filter (\<lambda>x. x \<noteq> 0) [b ..< get_trailer_block b]"
proof (cases "b < 128")
  case True
  then have m: "b mod 4 = 0" using assms by (simp add: is_first_block_def)
  have bd: "b = 4 * (b div 4) + b mod 4" by simp
  have b4: "4 * (b div 4) = b" using bd m by simp
  have g: "get_trailer_block b = b + 3" using True b4 by (simp add: trailer_of_block)
  have "b div 4 < 32" using True by simp
  then have lt: "b + 3 < 128" using b4 by linarith
  have "(b + 3) div 4 = b div 4" using m by (simp add: div_add1_eq)
  then have d: "4 * ((b + 3) div 4) = b" using b4 by simp
  have "sector_blocks (b + 3) = [b ..< b + 4]"
    using lt by (simp add: sector_blocks_def d)
  then have "butlast (sector_blocks (b + 3)) = [b ..< b + 3]"
    by (simp add: numeral_eq_Suc)
  then show ?thesis by (simp add: data_blocks_def g)
next
  case False
  then have m: "b mod 16 = 0" using assms by (simp add: is_first_block_def)
  have bd: "b = 16 * (b div 16) + b mod 16" by simp
  have b4: "16 * (b div 16) = b" using bd m by simp
  have g: "get_trailer_block b = b + 15" using False b4 by (simp add: trailer_of_block)
  have "(b + 15) div 16 = b div 16" using m by (simp add: div_add1_eq)
  then have d: "16 * ((b + 15) div 16) = b" using b4 by simp
  have "sector_blocks (b + 15) = [b ..< b + 16]"
    using False by (simp add: sector_blocks_def d)
  then have "butlast (sector_blocks (b + 15)) = [b ..< b + 15]"
    by (simp add: numeral_eq_Suc)
  then show ?thesis by (simp add: data_blocks_def g)
qed

lemma trailer_below_last:
  assumes "is_trailer_block u" "b \<le> u"
  shows "get_trailer_block b \<le> u"
proof (cases "is_trailer_block b")
  case True
  then show ?thesis using assms(2) trailer_self(1) by simp
next
  case False
  show ?thesis
  proof (rule ccontr)
    assume "\<not> get_trailer_block b \<le> u"
    then have lt: "u < get_trailer_block b" by simp
    have "u \<in> set (sector_blocks (get_trailer_block b)) \<Longrightarrow> False"
      using in_sector [OF trailer_is_trailer, of u b] trailer_self(1) [OF assms(1)] lt by simp
    moreover have "u \<in> set (sector_blocks (get_trailer_block b))"
    proof (cases "b < 128")
      case True
      have bd: "b = 4 * (b div 4) + b mod 4" by simp
      have bm: "b mod 4 < 4" by simp
      have g: "get_trailer_block b = 4 * (b div 4) + 3" using True by (simp add: trailer_of_block)
      have "b div 4 < 32" using True by simp
      then have l: "4 * (b div 4) + 3 < 128" by simp
      have "(4 * (b div 4) + 3) div 4 = b div 4" by simp
      then have "sector_blocks (get_trailer_block b) = [4 * (b div 4) ..< 4 * (b div 4) + 4]"
        unfolding g using l by (simp add: sector_blocks_def)
      then show ?thesis using lt assms(2) bd bm unfolding g by (simp; linarith)
    next
      case b: False
      have bd: "b = 16 * (b div 16) + b mod 16" by simp
      have bm: "b mod 16 < 16" by simp
      have g: "get_trailer_block b = 16 * (b div 16) + 15" using b by (simp add: trailer_of_block)
      have l: "\<not> 16 * (b div 16) + 15 < 128" using b bd bm by linarith
      have "(16 * (b div 16) + 15) div 16 = b div 16" by simp
      then have "sector_blocks (get_trailer_block b) = [16 * (b div 16) ..< 16 * (b div 16) + 16]"
        unfolding g using l by (simp add: sector_blocks_def)
      then show ?thesis using lt assms(2) bd bm unfolding g by (simp; linarith)
    qed
    ultimately show False by blast
  qed
qed

section \<open>The writes of a sector\<close>

lemma marks_append: "marks (xs @ ys) = marks xs @ marks ys"
  by (induction xs rule: marks.induct) simp_all

lemma until_failure_Cons:
  "until_failure ok (b # bs) = (if ok b then b # until_failure ok bs else [b])"
  by (simp add: until_failure_def)

lemma until_failure_cong:
  "(\<And>x. x \<in> set bs \<Longrightarrow> ok x = ok' x) \<Longrightarrow> until_failure ok bs = until_failure ok' bs"
  by (induction bs) (simp_all add: until_failure_def)

lemma until_failure_subset: "set (until_failure ok bs) \<subseteq> set bs"
  by (induction bs) (auto simp: until_failure_Cons until_failure_def)

lemma discipline_blocks:
  assumes "sector_discipline ds t ws" and "distinct ds" and "t \<notin> set ds"
  shows "map fst ws = until_failure (\<lambda>b. b \<notin> set (refused ws)) ds @ [t]"
  using assms
proof (induction ds t ws rule: sector_discipline.induct)
  case (1 t ws)
  then show ?case by (simp add: until_failure_def)
next
  case (2 d ds t)
  then show ?case by simp
next
  case (3 d ds t w ws)
  have w: "fst w = d" using "3.prems"(1) by simp
  show ?case
  proof (cases "snd (snd w)")
    case True
    then have disc: "sector_discipline ds t ws" using "3.prems"(1) by simp
    have IH: "map fst ws = until_failure (\<lambda>b. b \<notin> set (refused ws)) ds @ [t]"
      using "3.IH" [OF True disc] "3.prems"(2,3) by simp
    have sub: "set (map fst ws) \<subseteq> set ds \<union> {t}"
      unfolding IH using until_failure_subset [of _ ds] by auto
    have "set (refused ws) \<subseteq> set (map fst ws)" by (auto simp: refused_def)
    then have dn: "d \<notin> set (refused ws)" using sub "3.prems"(2,3) by auto
    have r: "refused (w # ws) = refused ws" using True by (simp add: refused_def)
    show ?thesis
      unfolding r using w dn IH by (simp add: until_failure_Cons)
  next
    case False
    then have "map fst ws = [t]" using "3.prems"(1) by simp
    moreover have "d \<in> set (refused (w # ws))" using False w by (simp add: refused_def)
    ultimately show ?thesis using w by (simp add: until_failure_Cons)
  qed
qed

section \<open>One pass through the body of the write loop\<close>

lemma quiet_state:
  assumes "quiet st st'"
  shows "mtDump st' = mtDump st" "stdout st' = stdout st" "mpd_abtData st' = mpd_abtData st"
  using assms by (simp_all add: quiet_def)

lemma authenticate_attempts_at:
  assumes "authenticate T cfg b st = (ok, st')"
  shows "auth_attempts (added st st') \<noteq> []"
    and "\<forall>a \<in> set (auth_attempts (added st st')). fst (snd a) = b \<and> (snd (snd (snd a)) \<longrightarrow> ok)"
proof -
  note q = quiet_extends [OF authenticate_quiet [OF assms]]
  have tr: "auth_attempts (trace st') = auth_attempts (trace st) @ auth_attempts (added st st')"
    using extends_trace [OF q(1)] by (simp add: auth_attempts_append)
  have "auth_attempts (added st st') \<noteq> [] \<and>
      (\<forall>a \<in> set (auth_attempts (added st st')). fst (snd a) = b \<and> (snd (snd (snd a)) \<longrightarrow> ok))"
  proof (cases "bUseKeyFile cfg")
    case True
    define st1 where "st1 = st\<lparr>mpa_abtUid := memcpy (mpa_abtUid st) 0 (nti_abtUid st) 0 4\<rparr>"
    define st2 where "st2 = st1\<lparr>mpa_abtKey :=
        (if bUseKeyA cfg
         then memcpy (mpa_abtKey st1) 0 (abtKeyA (mtKeys st1 ! get_trailer_block b)) 0 6
         else memcpy (mpa_abtKey st1) 0 (abtKeyB (mtKeys st1 ! get_trailer_block b)) 0 6)\<rparr>"
    have cmd: "nfc_initiator_mifare_cmd T (auth_cmd cfg) b st2 = (ok, st')"
      using assms True by (cases "bUseKeyA cfg") (simp_all add: authenticate_def Let_def st1_def st2_def)
    have "trace st' = trace st @ [Mifare (auth_cmd cfg) b (mifare_param (auth_cmd cfg) st2) ok]"
      using mifare_cmd_result(2) [OF cmd] by (simp add: st2_def st1_def)
    then have "added st st' = [Mifare (auth_cmd cfg) b (mifare_param (auth_cmd cfg) st2) ok]"
      using extendsI by blast
    then show ?thesis using auth_cmd_is_auth [of cfg] by auto
  next
    case False
    define st0 where "st0 = st\<lparr>mpa_abtUid := memcpy (mpa_abtUid st) 0 (nti_abtUid st) 0 4\<rparr>"
    have run: "auth_keys T cfg b 0 st0 = (ok, st')"
      using assms False by (simp add: authenticate_def st0_def)
    obtain n where n: "if ok then 0 < n else n = num_keys"
      and att: "auth_attempts (trace st') = auth_attempts (trace st0) @
                 map (\<lambda>j. (auth_cmd cfg, b, candidate j, ok \<and> Suc j = n)) [0 ..< n]"
      using auth_keys_run [OF run] by auto
    have a: "auth_attempts (added st st') =
        map (\<lambda>j. (auth_cmd cfg, b, candidate j, ok \<and> Suc j = n)) [0 ..< n]"
      using att tr by (simp add: st0_def)
    have "0 < n" using n by (auto simp: num_keys_8 split: if_splits)
    then show ?thesis unfolding a by auto
  qed
  then show "auth_attempts (added st st') \<noteq> []"
    and "\<forall>a \<in> set (auth_attempts (added st st')). fst (snd a) = b \<and> (snd (snd (snd a)) \<longrightarrow> ok)"
    by blast+
qed

lemma write_auth_flow:
  assumes "write_auth T cfg b cnt st = res"
  shows "case res of
           Inl (ret, st') \<Rightarrow> \<not> ret \<and> extends st st' \<and> write_results (added st st') = [] \<and>
             stdout st' = stdout st @ [Auth_failed b] \<and>
             auth_attempts (added st st') \<noteq> [] \<and>
             (\<forall>a \<in> set (auth_attempts (added st st')). fst (snd a) = b \<and> \<not> snd (snd (snd a)))
         | Inr (bF', cnt', st') \<Rightarrow> \<not> bF' \<and> extends st st' \<and> write_results (added st st') = [] \<and>
             stdout st' = stdout st \<and> mtDump st' = mtDump st \<and> mpd_abtData st' = mpd_abtData st \<and>
             (\<forall>a \<in> set (auth_attempts (added st st')). fst (snd a) = b) \<and>
             (\<exists>a \<in> set (auth_attempts (added st st')). snd (snd (snd a)))"
proof -
  obtain ok st1 where au: "authenticate T cfg b st = (ok, st1)"
    by (cases "authenticate T cfg b st")
  note q = quiet_extends [OF authenticate_quiet [OF au]] quiet_state [OF authenticate_quiet [OF au]]
  note at = authenticate_attempts_at [OF au]
  show ?thesis
  proof (cases ok)
    case True
    then have "res = Inr (False, cnt, st1)" using assms au by (simp add: write_auth_def)
    moreover have "\<exists>a \<in> set (auth_attempts (added st st1)). snd (snd (snd a))"
      using authenticate_accepted_event [OF au] True by force
    ultimately show ?thesis using q at(2) by auto
  next
    case False
    then have "res = Inl (False, st1\<lparr>stdout := stdout st1 @ [Auth_failed b]\<rparr>)"
      using assms au by (simp add: write_auth_def)
    then show ?thesis using q at False by (auto simp: extends_upd)
  qed
qed

lemma write_first_flow:
  assumes "write_first T cfg b bF cnt st = res"
  shows "case res of
           Inl (ret, st') \<Rightarrow> \<not> ret \<and> extends st st' \<and> write_results (added st st') = [] \<and>
             (\<exists>m. stdout st' = stdout st @ (if b \<noteq> uiBlocks cfg then [Mark bF] else []) @ [m] \<and>
                  (m = Tag_removed \<or> m = Auth_failed b)) \<and>
             (added st st' \<noteq> [] \<and> last (added st st') = Select None False \<or>
              auth_attempts (added st st') \<noteq> [] \<and>
              (\<forall>a \<in> set (auth_attempts (added st st')). fst (snd a) = b \<and> \<not> snd (snd (snd a)))) \<and>
             (\<forall>a \<in> set (auth_attempts (added st st')). fst (snd a) = b \<and> \<not> snd (snd (snd a)))
         | Inr (bF', cnt', st') \<Rightarrow> \<not> bF' \<and> extends st st' \<and> write_results (added st st') = [] \<and>
             stdout st' = stdout st @ (if b \<noteq> uiBlocks cfg then [Mark bF] else []) \<and>
             mtDump st' = mtDump st \<and> mpd_abtData st' = mpd_abtData st \<and>
             (\<forall>a \<in> set (auth_attempts (added st st')). fst (snd a) = b) \<and>
             (\<exists>a \<in> set (auth_attempts (added st st')). snd (snd (snd a)))"
proof -
  obtain cnt1 st1 where pr: "(if b \<noteq> uiBlocks cfg
      then print_success_or_failure bF cnt st else (cnt, st)) = (cnt1, st1)"
    by (cases "if b \<noteq> uiBlocks cfg then print_success_or_failure bF cnt st else (cnt, st)")
  have e1: "extends st st1" "added st st1 = []"
    using pr by (auto simp: extends_refl split: if_splits dest: print_extends)
  have s1: "stdout st1 = stdout st @ (if b \<noteq> uiBlocks cfg then [Mark bF] else [])"
    "mtDump st1 = mtDump st" "mpd_abtData st1 = mpd_abtData st"
    using pr by (auto simp: print_success_or_failure_def split: if_splits)
  obtain ok st2 where sel: "nfc_initiator_select_tag T None True st1 = (ok, st2)"
    by (cases "nfc_initiator_select_tag T None True st1")
  note s = select_tag_extends [OF sel]
  note sr = select_tag_result [OF sel]
  have e2: "extends st st2" "added st st2 = [Select None ok]"
    using extends_trans [OF e1(1) s(1)] e1(2) s(2) by simp_all
  have s2: "stdout st2 = stdout st1" "mtDump st2 = mtDump st1" "mpd_abtData st2 = mpd_abtData st1"
    using sr by simp_all
  define st3 where "st3 = (if bF then st2 else st1)"
  have e3: "extends st st3" "write_results (added st st3) = []" "auth_attempts (added st st3) = []"
    using e1 e2 by (simp_all add: st3_def)
  have s3: "stdout st3 = stdout st @ (if b \<noteq> uiBlocks cfg then [Mark bF] else [])"
    "mtDump st3 = mtDump st" "mpd_abtData st3 = mpd_abtData st"
    using s1 s2 by (simp_all add: st3_def)
  define res3 where "res3 = write_auth T cfg b cnt1 st3"
  note a = write_auth_flow [OF res3_def [symmetric]]
  have res: "res = (if bF \<and> \<not> ok
      then Inl (False, st2\<lparr>stdout := stdout st2 @ [Tag_removed]\<rparr>) else res3)"
    unfolding assms [symmetric] write_first_def pr using sel
    by (cases bF; cases ok) (simp_all add: res3_def st3_def)
  show ?thesis
  proof (cases "bF \<and> \<not> ok")
    case True
    then show ?thesis using res e2 s1 s2 by (simp add: extends_upd)
  next
    case False
    then have r3: "res = res3" using res by auto
    show ?thesis
    proof (cases res3)
      case (Inl x)
      obtain ret st' where x: "x = (ret, st')" by (cases x)
      have f: "\<not> ret" "extends st3 st'" "write_results (added st3 st') = []"
        "stdout st' = stdout st3 @ [Auth_failed b]"
        "auth_attempts (added st3 st') \<noteq> []"
        "\<forall>a \<in> set (auth_attempts (added st3 st')). fst (snd a) = b \<and> \<not> snd (snd (snd a))"
        using a Inl x by simp_all
      note t = extends_trans [OF e3(1) f(2)]
      have w: "write_results (added st st') = []"
        using t(2) e3(2) f(3) by (simp add: write_results_append)
      have at: "auth_attempts (added st st') = auth_attempts (added st3 st')"
        using t(2) e3(3) by (simp add: auth_attempts_append)
      show ?thesis using r3 Inl x f(1,4,5,6) s3(1) t(1) w at by simp
    next
      case (Inr y)
      obtain bF' cnt' st' where y: "y = (bF', cnt', st')" by (cases y)
      have f: "\<not> bF'" "extends st3 st'" "write_results (added st3 st') = []"
        "stdout st' = stdout st3" "mtDump st' = mtDump st3" "mpd_abtData st' = mpd_abtData st3"
        "\<forall>a \<in> set (auth_attempts (added st3 st')). fst (snd a) = b"
        "\<exists>a \<in> set (auth_attempts (added st3 st')). snd (snd (snd a))"
        using a Inr y by simp_all
      note t = extends_trans [OF e3(1) f(2)]
      have w: "write_results (added st st') = []"
        using t(2) e3(2) f(3) by (simp add: write_results_append)
      have at: "auth_attempts (added st st') = auth_attempts (added st3 st')"
        using t(2) e3(3) by (simp add: auth_attempts_append)
      show ?thesis using r3 Inr y f(1,4,5,6,7,8) s3 t(1) w at by simp
    qed
  qed
qed

lemma write_block_flow:
  assumes "write_block T b bF st = (bF', st')"
  shows "extends st st'" and "mtDump st' = mtDump st"
    and "\<exists>out. stdout st' = stdout st @ out \<and> marks out = []"
    and "if is_trailer_block b then
           \<exists>d r. write_results (added st st') = [(b, d, r)] \<and> bF' = (bF \<or> \<not> r)
         else if b \<noteq> 0 \<and> \<not> bF then
           \<exists>d r. write_results (added st st') = [(b, d, r)] \<and> bF' = (\<not> r)
         else write_results (added st st') = [] \<and> bF' = bF"
    and "auth_attempts (added st st') = []"
proof -
  have "extends st st' \<and> mtDump st' = mtDump st \<and>
      (\<exists>out. stdout st' = stdout st @ out \<and> marks out = []) \<and>
      (if is_trailer_block b then
           \<exists>d r. write_results (added st st') = [(b, d, r)] \<and> bF' = (bF \<or> \<not> r)
         else if b \<noteq> 0 \<and> \<not> bF then
           \<exists>d r. write_results (added st st') = [(b, d, r)] \<and> bF' = (\<not> r)
         else write_results (added st st') = [] \<and> bF' = bF) \<and>
      auth_attempts (added st st') = []"
  proof (cases "is_trailer_block b")
    case True
    define st0 where "st0 = st\<lparr>mpd_abtData :=
        memcpy (memcpy (memcpy (mpd_abtData st) 0 (abtKeyA (mtDump st ! b)) 0 6)
                  6 (abtAccessBits (mtDump st ! b)) 0 4)
          10 (abtKeyB (mtDump st ! b)) 0 6\<rparr>"
    obtain r st1 where cmd: "nfc_initiator_mifare_cmd T MC_WRITE b st0 = (r, st1)"
      by (cases "nfc_initiator_mifare_cmd T MC_WRITE b st0")
    note m = mifare_cmd_extends [OF cmd]
    note mr = mifare_cmd_result [OF cmd]
    have res: "bF' = (bF \<or> \<not> r)"
        "st' = (if r then st1 else st1\<lparr>stdout := stdout st1 @ [Trailer_write_failed b]\<rparr>)"
      using assms(1) True cmd by (cases r; simp add: write_block_def st0_def [symmetric])+
    have e: "extends st st'" "added st st' = added st0 st1"
      using m(1) unfolding res(2) st0_def by (simp_all add: extends_upd)
    have d: "mtDump st' = mtDump st" using mr(4) unfolding res(2) st0_def by simp
    have o: "\<exists>out. stdout st' = stdout st @ out \<and> marks out = []"
      using mr(7) unfolding res(2) st0_def by (cases r) simp_all
    show ?thesis
      using True e m(2) res(1) d o by simp
  next
    case False
    show ?thesis
    proof (cases "b \<noteq> 0 \<and> \<not> bF")
      case skip: False
      then have "bF' = bF" "st' = st"
        using assms(1) False by (auto simp: write_block_def split: if_splits)
      then show ?thesis using False skip by (simp add: extends_refl)
    next
      case True
      define st0 where "st0 = st\<lparr>mpd_abtData := memcpy (mpd_abtData st) 0 (mtDump st ! b) 0 16\<rparr>"
      obtain r st1 where cmd: "nfc_initiator_mifare_cmd T MC_WRITE b st0 = (r, st1)"
        by (cases "nfc_initiator_mifare_cmd T MC_WRITE b st0")
      note m = mifare_cmd_extends [OF cmd]
      note mr = mifare_cmd_result [OF cmd]
      have res: "bF' = (\<not> r)" "st' = st1"
        using assms(1) False True cmd by (cases r; simp add: write_block_def st0_def [symmetric])+
      have e: "extends st st'" "added st st' = added st0 st1"
        using m(1) unfolding res(2) st0_def by (simp_all add: extends_upd)
      have d: "mtDump st' = mtDump st" using mr(4) unfolding res(2) st0_def by simp
      have o: "stdout st' = stdout st" using mr(7) unfolding res(2) st0_def by simp
      show ?thesis
        using False True e m(2) res(1) d o by simp
    qed
  qed
  then show "extends st st'" and "mtDump st' = mtDump st"
    and "\<exists>out. stdout st' = stdout st @ out \<and> marks out = []"
    and "if is_trailer_block b then
           \<exists>d r. write_results (added st st') = [(b, d, r)] \<and> bF' = (bF \<or> \<not> r)
         else if b \<noteq> 0 \<and> \<not> bF then
           \<exists>d r. write_results (added st st') = [(b, d, r)] \<and> bF' = (\<not> r)
         else write_results (added st st') = [] \<and> bF' = bF"
    and "auth_attempts (added st st') = []"
    by simp_all
qed

lemma write_block_bytes:
  assumes "write_block T b bF st = (bF', st')"
    and "length (mtDump st ! b) = 16" and "length (mpd_abtData st) = 16"
  shows "\<forall>w \<in> set (write_results (added st st')). fst (snd w) = dump_bytes (mtDump st) (fst w)"
    and "length (mpd_abtData st') = 16"
proof -
  note s = write_block_sends [OF assms]
  show "\<forall>w \<in> set (write_results (added st st')). fst (snd w) = dump_bytes (mtDump st) (fst w)"
    using s by (auto simp: dump_bytes_def split: if_splits)
  have l: "length (abtKeyA (mtDump st ! b) @ abtAccessBits (mtDump st ! b) @ abtKeyB (mtDump st ! b)) = 16"
    using assms(2) by (simp add: trailer_bytes)
  show "length (mpd_abtData st') = 16"
  proof (cases "is_trailer_block b")
    case True
    define st0 where "st0 = st\<lparr>mpd_abtData :=
        memcpy (memcpy (memcpy (mpd_abtData st) 0 (abtKeyA (mtDump st ! b)) 0 6)
                  6 (abtAccessBits (mtDump st ! b)) 0 4)
          10 (abtKeyB (mtDump st ! b)) 0 6\<rparr>"
    obtain r st1 where cmd: "nfc_initiator_mifare_cmd T MC_WRITE b st0 = (r, st1)"
      by (cases "nfc_initiator_mifare_cmd T MC_WRITE b st0")
    have "mpd_abtData st1 = mpd_abtData st0"
      using mifare_cmd_data [OF cmd] by simp
    moreover have "length (mpd_abtData st0) = 16"
      using rebuilt_trailer [OF assms(2,3)] l by (simp add: st0_def)
    moreover have "st' = (if r then st1 else st1\<lparr>stdout := stdout st1 @ [Trailer_write_failed b]\<rparr>)"
      using assms(1) True cmd by (cases r; simp add: write_block_def st0_def [symmetric])
    ultimately show ?thesis by simp
  next
    case False
    show ?thesis
    proof (cases "b \<noteq> 0 \<and> \<not> bF")
      case skip: False
      then have "st' = st"
        using assms(1) False by (auto simp: write_block_def split: if_splits)
      then show ?thesis using assms(3) by simp
    next
      case True
      define st0 where "st0 = st\<lparr>mpd_abtData := memcpy (mpd_abtData st) 0 (mtDump st ! b) 0 16\<rparr>"
      obtain r st1 where cmd: "nfc_initiator_mifare_cmd T MC_WRITE b st0 = (r, st1)"
        by (cases "nfc_initiator_mifare_cmd T MC_WRITE b st0")
      have "mpd_abtData st1 = mpd_abtData st0"
        using mifare_cmd_data [OF cmd] by simp
      moreover have "length (mpd_abtData st0) = 16"
        using copied_block [OF assms(2,3)] assms(2) by (simp add: st0_def)
      moreover have "st' = st1"
        using assms(1) False True cmd by (cases r; simp add: write_block_def st0_def [symmetric])
      ultimately show ?thesis by simp
    qed
  qed
qed

text \<open>One pass through the loop body.\<close>

lemma write_blocks_cases:
  assumes "write_blocks T cfg b bF cnt st = (ret, st')"
  obtains
    (finished) cnt' where "uiBlocks cfg < b" "ret" "added st st' = []"
      "stdout st' = stdout st @ [Mark bF, Bar, Done_written cnt' (uiBlocks cfg + 1)]"
  | (aborted) m where "b \<le> uiBlocks cfg" "is_first_block b" "\<not> ret" "extends st st'"
      "write_results (added st st') = []"
      "stdout st' = stdout st @ (if b \<noteq> uiBlocks cfg then [Mark bF] else []) @ [m]"
      "m = Tag_removed \<or> m = Auth_failed b"
      "added st st' \<noteq> [] \<and> last (added st st') = Select None False \<or>
       auth_attempts (added st st') \<noteq> [] \<and>
       (\<forall>a \<in> set (auth_attempts (added st st')). fst (snd a) = b \<and> \<not> snd (snd (snd a)))"
      "\<forall>a \<in> set (auth_attempts (added st st')). fst (snd a) = b \<and> \<not> snd (snd (snd a))"
      "write_first T cfg b bF cnt st = Inl (ret, st')"
  | (step) bF1 cnt1 st1 bF2 st2 where "b \<le> uiBlocks cfg"
      "bF1 = (if is_first_block b then False else bF)"
      "extends st st1" "write_results (added st st1) = []"
      "stdout st1 = stdout st @ (if is_first_block b \<and> b \<noteq> uiBlocks cfg then [Mark bF] else [])"
      "mtDump st1 = mtDump st" "mpd_abtData st1 = mpd_abtData st"
      "write_block T b bF1 st1 = (bF2, st2)"
      "write_blocks T cfg (b + 1) bF2 cnt1 st2 = (ret, st')"
      "\<forall>a \<in> set (auth_attempts (added st st1)). fst (snd a) = b"
      "is_first_block b \<longrightarrow> (\<exists>a \<in> set (auth_attempts (added st st1)). snd (snd (snd a)))"
proof (cases "b \<le> uiBlocks cfg")
  case False
  then have "ret" "added st st' = []"
      "\<exists>cnt'. stdout st' = stdout st @ [Mark bF, Bar, Done_written cnt' (uiBlocks cfg + 1)]"
    using assms
    by (auto simp: write_blocks.simps [of T cfg b] print_success_or_failure_def added_def)
  then show ?thesis using finished False by auto
next
  case True
  define res where "res = (if is_first_block b
        then write_first T cfg b bF cnt st else Inr (bF, cnt, st))"
  show ?thesis
  proof (cases res)
    case (Inl a)
    then have fb: "is_first_block b" and wf: "write_first T cfg b bF cnt st = Inl a"
      by (auto simp: res_def split: if_splits)
    have a: "a = (ret, st')"
      using assms True Inl by (simp add: write_blocks.simps [of T cfg b] res_def [symmetric])
    show ?thesis
      using write_first_flow [OF wf] wf a aborted [OF True fb] by auto
  next
    case (Inr c)
    obtain bF1 cnt1 st1 where c: "c = (bF1, cnt1, st1)" by (cases c)
    obtain bF2 st2 where wb: "write_block T b bF1 st1 = (bF2, st2)"
      by (cases "write_block T b bF1 st1")
    have run: "write_blocks T cfg (b + 1) bF2 cnt1 st2 = (ret, st')"
      using assms True Inr c wb
      by (simp add: write_blocks.simps [of T cfg b] res_def [symmetric])
    have f: "bF1 = (if is_first_block b then False else bF) \<and>
        extends st st1 \<and> write_results (added st st1) = [] \<and>
        stdout st1 = stdout st @ (if is_first_block b \<and> b \<noteq> uiBlocks cfg then [Mark bF] else []) \<and>
        mtDump st1 = mtDump st \<and> mpd_abtData st1 = mpd_abtData st \<and>
        (\<forall>a \<in> set (auth_attempts (added st st1)). fst (snd a) = b) \<and>
        (is_first_block b \<longrightarrow> (\<exists>a \<in> set (auth_attempts (added st st1)). snd (snd (snd a))))"
    proof (cases "is_first_block b")
      case fb: True
      then have wf: "write_first T cfg b bF cnt st = Inr (bF1, cnt1, st1)"
        using Inr c by (simp add: res_def)
      show ?thesis
        using write_first_flow [OF wf] fb by simp
    next
      case False
      then have "bF1 = bF" "st1 = st" using Inr c by (simp_all add: res_def)
      then show ?thesis
        using False by (simp add: extends_refl)
    qed
    then have f1: "bF1 = (if is_first_block b then False else bF)"
      and f2: "extends st st1" and f3: "write_results (added st st1) = []"
      and f4: "stdout st1 =
        stdout st @ (if is_first_block b \<and> b \<noteq> uiBlocks cfg then [Mark bF] else [])"
      and f5: "mtDump st1 = mtDump st" and f6: "mpd_abtData st1 = mpd_abtData st"
      and f7: "\<forall>a \<in> set (auth_attempts (added st st1)). fst (snd a) = b"
      and f8: "is_first_block b \<longrightarrow> (\<exists>a \<in> set (auth_attempts (added st st1)). snd (snd (snd a)))"
      by blast+
    show ?thesis using step [OF True f1 f2 f3 f4 f5 f6 wb run f7 f8] .
  qed
qed

section \<open>The write pass, sector by sector\<close>

lemma write_blocks_split:
  assumes "extends st st1" and "write_results (added st st1) = []"
    and "write_block T b bF1 st1 = (bF2, st2)"
    and "write_blocks T cfg (b + 1) bF2 cnt1 st2 = (ret, st')"
  shows "write_results (added st st') =
           write_results (added st1 st2) @ write_results (added st2 st')"
    and "\<forall>w \<in> set (write_results (added st2 st')). b < fst w \<and> fst w \<le> uiBlocks cfg"
    and "extends st st'" and "extends st2 st'"
    and "fst ` set (write_results (added st1 st2)) \<subseteq> {b}"
proof -
  note fl = write_block_flow [OF assms(3)]
  note tg = write_blocks_targets [OF assms(4)]
  have e2: "extends st2 st'" using tg by simp
  note t12 = extends_trans [OF assms(1) fl(1)]
  note t = extends_trans [OF t12(1) e2]
  show "write_results (added st st') =
           write_results (added st1 st2) @ write_results (added st2 st')"
    using t(2) t12(2) assms(2) by (simp add: write_results_append)
  have "\<forall>x \<in> set (write_targets st2 st'). b + 1 \<le> x \<and> 0 < x \<and> x \<le> uiBlocks cfg"
    using tg by blast
  then show "\<forall>w \<in> set (write_results (added st2 st')). b < fst w \<and> fst w \<le> uiBlocks cfg"
    by (fastforce simp: write_targets_def)
  show "extends st st'" using t(1) .
  show "extends st2 st'" using e2 .
  show "fst ` set (write_results (added st1 st2)) \<subseteq> {b}"
    using fl(4) by (auto split: if_splits)
qed

lemma sector_writes_append:
  "sector_writes t (xs @ ys) = sector_writes t xs @ sector_writes t ys"
  by (simp add: sector_writes_def)

lemma sector_writes_other:
  assumes "is_trailer_block t" and "fst ` set ws \<subseteq> {b}" and "get_trailer_block b \<noteq> t"
  shows "sector_writes t ws = []"
  using assms in_sector [OF assms(1)] by (auto simp: sector_writes_def filter_empty_conv)

lemma sector_writes_above:
  assumes "is_trailer_block t" and "\<forall>w \<in> set ws. t < fst w"
  shows "sector_writes t ws = []"
proof -
  have "fst w \<notin> set (sector_blocks t)" if "w \<in> set ws" for w
  proof
    assume "fst w \<in> set (sector_blocks t)"
    then have "get_trailer_block (fst w) = t" using in_sector [OF assms(1)] by simp
    then have "fst w \<le> t" using le_trailer [of "fst w"] by simp
    then show False using assms(2) that by fastforce
  qed
  then show ?thesis by (auto simp: sector_writes_def filter_empty_conv)
qed

lemma sector_writes_own:
  assumes "is_trailer_block t" and "get_trailer_block b = t"
  shows "sector_writes t [(b, d, r)] = [(b, d, r)]"
  using assms in_sector [OF assms(1), of b] by (simp add: sector_writes_def)

lemma write_blocks_discipline:
  assumes "write_blocks T cfg b bF cnt st = (ret, st')"
    and "is_trailer_block t" and "t \<le> uiBlocks cfg" and "b \<le> t"
  shows "if get_trailer_block b = t \<and> \<not> is_first_block b
      then (if bF then map fst (sector_writes t (write_results (added st st'))) = [t]
            else sector_discipline (filter (\<lambda>x. x \<noteq> 0) [b ..< t]) t
                   (sector_writes t (write_results (added st st'))))
      else sector_writes t (write_results (added st st')) = [] \<or>
           sector_discipline (data_blocks t) t (sector_writes t (write_results (added st st')))"
  using assms
proof (induction "Suc (uiBlocks cfg) - b" arbitrary: b bF cnt st rule: less_induct)
  case less
  from less.prems(1) show ?case
  proof (cases rule: write_blocks_cases)
    case (finished cnt')
    then show ?thesis using less.prems(3,4) by simp
  next
    case (aborted m)
    then show ?thesis by (simp add: sector_writes_def)
  next
    case (step bF1 cnt1 st1 bF2 st2)
    note fl = write_block_flow [OF step(8)]
    note sp = write_blocks_split [OF step(3,4,8,9)]
    define ws1 where "ws1 = write_results (added st1 st2)"
    define ws' where "ws' = write_results (added st2 st')"
    have ws: "write_results (added st st') = ws1 @ ws'"
      using sp(1) by (simp add: ws1_def ws'_def)
    have sw: "sector_writes t (write_results (added st st')) =
        sector_writes t ws1 @ sector_writes t ws'"
      unfolding ws by (rule sector_writes_append)
    have high: "\<forall>w \<in> set ws'. b < fst w" using sp(2) by (simp add: ws'_def)
    have only: "fst ` set ws1 \<subseteq> {b}" using sp(5) by (simp add: ws1_def)
    have meas: "Suc (uiBlocks cfg) - (b + 1) < Suc (uiBlocks cfg) - b"
      using step(1) by simp
    show ?thesis
    proof (cases "get_trailer_block b = t")
      case False
      have s1: "sector_writes t ws1 = []"
        using sector_writes_other [OF less.prems(2) only False] .
      have "b \<noteq> t" using False trailer_self(1) [OF less.prems(2)] by auto
      then have le: "b + 1 \<le> t" using less.prems(4) by simp
      have "\<not> (get_trailer_block (b + 1) = t \<and> \<not> is_first_block (b + 1))"
        using False trailer_next(1) [of b] trailer_self(2) [of b] by (cases "is_trailer_block b") auto
      then have "sector_writes t ws' = [] \<or> sector_discipline (data_blocks t) t (sector_writes t ws')"
        using less.hyps [OF meas step(9) less.prems(2,3) le] by (simp add: ws'_def)
      then show ?thesis using False sw s1 by simp
    next
      case own: True
      show ?thesis
      proof (cases "is_trailer_block b")
        case True
        then have bt: "b = t" using own trailer_self(1) by simp
        have nf: "\<not> is_first_block b" using True first_not_trailer by blast
        obtain d r where w1: "ws1 = [(b, d, r)]"
          using fl(4) True by (auto simp: ws1_def)
        have s1: "sector_writes t ws1 = [(b, d, r)]"
          unfolding w1 using sector_writes_own [OF less.prems(2) own] .
        have s2: "sector_writes t ws' = []"
          using sector_writes_above [OF less.prems(2)] high bt by simp
        show ?thesis using own nf sw s1 s2 bt by simp
      next
        case False
        note nx = trailer_next [OF False]
        have lt: "b < t" using nx(3) own by simp
        then have le: "b + 1 \<le> t" by simp
        have upt: "[b ..< t] = b # [b + 1 ..< t]" using lt by (simp add: upt_conv_Cons)
        have c: "get_trailer_block (b + 1) = t \<and> \<not> is_first_block (b + 1)"
          using nx(1,2) own by simp
        define ds' where "ds' = filter (\<lambda>x. x \<noteq> 0) [b + 1 ..< t]"
        have IH: "if bF2 then map fst (sector_writes t ws') = [t]
            else sector_discipline ds' t (sector_writes t ws')"
          using less.hyps [OF meas step(9) less.prems(2,3) le]
          unfolding if_P [OF c] ws'_def ds'_def .
        show ?thesis
        proof (cases "b \<noteq> 0 \<and> \<not> bF1")
          case skip: False
          then have w1: "ws1 = []" and b2: "bF2 = bF1"
            using fl(4) False by (simp_all add: ws1_def)
          show ?thesis
          proof (cases "is_first_block b")
            case True
            then have "bF1 = False" using step(2) by simp
            then have b0: "b = 0" using skip by simp
            have db: "data_blocks t = ds'"
              using data_blocks_first [OF True] own upt b0 by (simp add: ds'_def)
            show ?thesis
              using True IH b2 \<open>bF1 = False\<close> sw w1 db by (simp add: sector_writes_def)
          next
            case nf: False
            then have "bF1 = bF" using step(2) by simp
            moreover have "b \<noteq> 0" using nf by (cases "b = 0") (simp_all add: is_first_block_def)
            ultimately have bF using skip by simp
            then show ?thesis
              using nf own IH b2 \<open>bF1 = bF\<close> sw w1 by (simp add: sector_writes_def)
          qed
        next
          case go: True
          then obtain d r where w1: "ws1 = [(b, d, r)]" and b2: "bF2 = (\<not> r)"
            using fl(4) False by (auto simp: ws1_def)
          have s1: "sector_writes t ws1 = [(b, d, r)]"
            unfolding w1 using sector_writes_own [OF less.prems(2) own] .
          have f: "filter (\<lambda>x. x \<noteq> 0) [b ..< t] = b # ds'"
            unfolding upt ds'_def using go by simp
          have disc: "sector_discipline (filter (\<lambda>x. x \<noteq> 0) [b ..< t]) t
              (sector_writes t (write_results (added st st')))"
            unfolding f sw s1 using IH b2 by simp
          show ?thesis
          proof (cases "is_first_block b")
            case True
            have db: "data_blocks t = filter (\<lambda>x. x \<noteq> 0) [b ..< t]"
              using data_blocks_first [OF True] own by simp
            show ?thesis using True disc db by simp
          next
            case nf: False
            then have "bF1 = bF" using step(2) by simp
            then show ?thesis using nf own disc go by simp
          qed
        qed
      qed
    qed
  qed
qed

lemma write_blocks_bytes:
  assumes "write_blocks T cfg b bF cnt st = (ret, st')"
    and "\<forall>x \<le> uiBlocks cfg. length (mtDump st ! x) = 16"
    and "length (mpd_abtData st) = 16"
  shows "\<forall>w \<in> set (write_results (added st st')). fst (snd w) = dump_bytes (mtDump st) (fst w)"
  using assms
proof (induction "Suc (uiBlocks cfg) - b" arbitrary: b bF cnt st rule: less_induct)
  case less
  from less.prems(1) show ?case
  proof (cases rule: write_blocks_cases)
    case (finished cnt')
    then show ?thesis by simp
  next
    case (aborted m)
    then show ?thesis by simp
  next
    case (step bF1 cnt1 st1 bF2 st2)
    note fl = write_block_flow [OF step(8)]
    note sp = write_blocks_split [OF step(3,4,8,9)]
    have l1: "length (mtDump st1 ! b) = 16" "length (mpd_abtData st1) = 16"
      using less.prems(2,3) step(1,6,7) by simp_all
    note wbb = write_block_bytes [OF step(8) l1]
    have d2: "mtDump st2 = mtDump st" using fl(2) step(6) by simp
    have meas: "Suc (uiBlocks cfg) - (b + 1) < Suc (uiBlocks cfg) - b"
      using step(1) by simp
    have "\<forall>w \<in> set (write_results (added st2 st')). fst (snd w) = dump_bytes (mtDump st2) (fst w)"
      using less.hyps [OF meas step(9)] less.prems(2) wbb(2) d2 by simp
    then show ?thesis
      unfolding sp(1) using wbb(1) d2 step(6) by auto
  qed
qed

lemma write_blocks_abort:
  assumes "write_blocks T cfg b bF cnt st = (ret, st')" and "\<not> ret"
  shows "last (stdout st') = Tag_removed \<or> (\<exists>x. last (stdout st') = Auth_failed x)"
  using assms
proof (induction "Suc (uiBlocks cfg) - b" arbitrary: b bF cnt st rule: less_induct)
  case less
  from less.prems(1) show ?case
  proof (cases rule: write_blocks_cases)
    case (finished cnt')
    then show ?thesis using less.prems(2) by simp
  next
    case (aborted m)
    then show ?thesis by auto
  next
    case (step bF1 cnt1 st1 bF2 st2)
    have meas: "Suc (uiBlocks cfg) - (b + 1) < Suc (uiBlocks cfg) - b"
      using step(1) by simp
    show ?thesis using less.hyps [OF meas step(9) less.prems(2)] .
  qed
qed

lemma refused_append: "refused (xs @ ys) = refused xs @ refused ys"
  by (simp add: refused_def)

lemma sector_failed_append:
  "sector_failed t (xs @ ys) \<longleftrightarrow> sector_failed t xs \<or> sector_failed t ys"
  by (simp add: sector_failed_def sector_writes_append refused_append)

lemma write_block_flag:
  assumes "write_block T b bF st = (bF', st')"
  shows "bF' = (bF \<or> refused (write_results (added st st')) \<noteq> [])"
  using write_block_flow(4) [OF assms] by (auto simp: refused_def split: if_splits)

lemma write_blocks_marks:
  assumes "write_blocks T cfg b bF cnt st = (ret, st')"
    and "is_trailer_block (uiBlocks cfg)"
  shows "\<exists>out. stdout st' = stdout st @ out \<and>
      marks out =
        (if b \<le> uiBlocks cfg \<and> \<not> is_first_block b then [] else [bF]) @
        map (\<lambda>t. (b \<le> uiBlocks cfg \<and> \<not> is_first_block b \<and> bF \<and> t = get_trailer_block b) \<or>
                 sector_failed t (write_results (added st st')))
          (filter is_trailer_block (map fst (write_results (added st st'))))"
  using assms
proof (induction "Suc (uiBlocks cfg) - b" arbitrary: b bF cnt st rule: less_induct)
  case less
  from less.prems(1) show ?case
  proof (cases rule: write_blocks_cases)
    case (finished cnt')
    then show ?thesis by simp
  next
    case (aborted m)
    have "b \<noteq> uiBlocks cfg" using aborted(2) less.prems(2) first_not_trailer by blast
    then have "stdout st' = stdout st @ [Mark bF, m]" "marks [Mark bF, m] = [bF]"
      using aborted(6,7) by auto
    then show ?thesis using aborted(1,2,5) by simp
  next
    case (step bF1 cnt1 st1 bF2 st2)
    note fl = write_block_flow [OF step(8)]
    note sp = write_blocks_split [OF step(3,4,8,9)]
    define ws1 where "ws1 = write_results (added st1 st2)"
    define ws' where "ws' = write_results (added st2 st')"
    have ws: "write_results (added st st') = ws1 @ ws'"
      using sp(1) by (simp add: ws1_def ws'_def)
    have high: "\<forall>w \<in> set ws'. b < fst w" using sp(2) by (simp add: ws'_def)
    have only: "fst ` set ws1 \<subseteq> {b}" using sp(5) by (simp add: ws1_def)
    have flag: "bF2 = (bF1 \<or> refused ws1 \<noteq> [])"
      using write_block_flag [OF step(8)] by (simp add: ws1_def)
    have meas: "Suc (uiBlocks cfg) - (b + 1) < Suc (uiBlocks cfg) - b"
      using step(1) by simp
    have ne: "is_first_block b \<Longrightarrow> b \<noteq> uiBlocks cfg"
      using less.prems(2) first_not_trailer by blast
    obtain outb where outb: "stdout st2 = stdout st1 @ outb" "marks outb = []"
      using fl(3) by blast
    obtain out' where out': "stdout st' = stdout st2 @ out'"
      and m': "marks out' =
        (if b + 1 \<le> uiBlocks cfg \<and> \<not> is_first_block (b + 1) then [] else [bF2]) @
        map (\<lambda>t. (b + 1 \<le> uiBlocks cfg \<and> \<not> is_first_block (b + 1) \<and> bF2 \<and>
                   t = get_trailer_block (b + 1)) \<or> sector_failed t ws')
          (filter is_trailer_block (map fst ws'))"
      using less.hyps [OF meas step(9) less.prems(2)] unfolding ws'_def by blast
    define out1 where "out1 = (if is_first_block b then [Mark bF] else [])"
    have o1: "stdout st1 = stdout st @ out1" using step(5) ne by (auto simp: out1_def)
    have out: "stdout st' = stdout st @ (out1 @ outb @ out')"
      using o1 outb(1) out' by simp
    have mk: "marks (out1 @ outb @ out') = (if is_first_block b then [bF] else []) @ marks out'"
      using outb(2) by (simp add: marks_append out1_def)
    show ?thesis
    proof (cases "is_trailer_block b")
      case True
      have nf: "\<not> is_first_block b" using True first_not_trailer by blast
      then have b1: "bF1 = bF" using step(2) by simp
      have gb: "get_trailer_block b = b" using trailer_self(1) [OF True] .
      have fs: "is_first_block (b + 1)" using trailer_self(2) [OF True] by simp
      obtain d r where w1: "ws1 = [(b, d, r)]"
        using fl(4) True by (auto simp: ws1_def)
      have m2: "marks out' = bF2 # map (\<lambda>t. sector_failed t ws') (filter is_trailer_block (map fst ws'))"
        using m' fs by simp
      have hd: "sector_failed b (ws1 @ ws') = (refused ws1 \<noteq> [])"
      proof -
        have "sector_writes b ws' = []"
          using sector_writes_above [OF True high] .
        moreover have "sector_writes b ws1 = ws1"
          unfolding w1 using sector_writes_own [OF True gb] .
        ultimately show ?thesis by (simp add: sector_failed_def sector_writes_append)
      qed
      have tl: "map (\<lambda>t. (bF \<and> t = b) \<or> sector_failed t (ws1 @ ws')) (filter is_trailer_block (map fst ws'))
          = map (\<lambda>t. sector_failed t ws') (filter is_trailer_block (map fst ws'))"
      proof (rule map_cong [OF refl])
        fix t assume "t \<in> set (filter is_trailer_block (map fst ws'))"
        then have t: "is_trailer_block t" "b < t" using high by auto
        then have "sector_writes t ws1 = []"
          using sector_writes_other [OF t(1) only] gb by simp
        then show "((bF \<and> t = b) \<or> sector_failed t (ws1 @ ws')) = sector_failed t ws'"
          using t(2) by (simp add: sector_failed_def sector_writes_append)
      qed
      have "marks (out1 @ outb @ out') =
          map (\<lambda>t. (bF \<and> t = b) \<or> sector_failed t (ws1 @ ws'))
            (filter is_trailer_block (map fst (ws1 @ ws')))"
        unfolding mk m2 using nf True hd tl flag b1 by (simp add: w1)
      then show ?thesis
        using out step(1) nf gb unfolding ws by auto
    next
      case False
      note nx = trailer_next [OF False]
      define tb where "tb = get_trailer_block b"
      have "tb \<le> uiBlocks cfg"
        unfolding tb_def using trailer_below_last [OF less.prems(2) step(1)] .
      then have le: "b + 1 \<le> uiBlocks cfg" using nx(3) by (simp add: tb_def)
      have m2: "marks out' = map (\<lambda>t. (bF2 \<and> t = tb) \<or> sector_failed t ws')
          (filter is_trailer_block (map fst ws'))"
        using m' le nx(1,2) by (simp add: tb_def)
      have tr: "filter is_trailer_block (map fst (ws1 @ ws')) = filter is_trailer_block (map fst ws')"
        using only False by (auto simp: filter_empty_conv)
      have b1: "bF1 = (\<not> is_first_block b \<and> bF)" using step(2) by simp
      have pt: "map (\<lambda>t. (bF2 \<and> t = tb) \<or> sector_failed t ws') (filter is_trailer_block (map fst ws'))
          = map (\<lambda>t. (\<not> is_first_block b \<and> bF \<and> t = tb) \<or> sector_failed t (ws1 @ ws'))
              (filter is_trailer_block (map fst ws'))"
      proof (rule map_cong [OF refl])
        fix t assume "t \<in> set (filter is_trailer_block (map fst ws'))"
        then have t: "is_trailer_block t" by simp
        show "((bF2 \<and> t = tb) \<or> sector_failed t ws') =
            ((\<not> is_first_block b \<and> bF \<and> t = tb) \<or> sector_failed t (ws1 @ ws'))"
        proof (cases "t = tb")
          case True
          have "sector_writes t ws1 = ws1"
            using only in_sector [OF t] True
            by (auto simp: sector_writes_def tb_def filter_id_conv)
          then have "sector_failed t (ws1 @ ws') = (refused ws1 \<noteq> [] \<or> sector_failed t ws')"
            by (simp add: sector_failed_append) (simp add: sector_failed_def)
          then show ?thesis using True flag b1 by auto
        next
          case ne: False
          then have "sector_writes t ws1 = []"
            using sector_writes_other [OF t only] by (simp add: tb_def)
          then show ?thesis using ne by (simp add: sector_failed_def sector_writes_append)
        qed
      qed
      have "marks (out1 @ outb @ out') =
          (if is_first_block b then [bF] else []) @
          map (\<lambda>t. (\<not> is_first_block b \<and> bF \<and> t = tb) \<or> sector_failed t (ws1 @ ws'))
            (filter is_trailer_block (map fst (ws1 @ ws')))"
        unfolding mk m2 tr pt by simp
      then show ?thesis
        using out step(1) unfolding ws tb_def by auto
    qed
  qed
qed


lemma write_blocks_refusal:
  assumes "write_blocks T cfg b bF cnt st = (ret, st')"
  shows "(\<forall>a \<in> set (auth_attempts (added st st')). b \<le> fst (snd a)) \<and>
    (\<not> ret \<longrightarrow>
       added st st' \<noteq> [] \<and> last (added st st') = Select None False \<or>
       (\<exists>x. x \<in> (\<lambda>a. fst (snd a)) ` set (auth_attempts (added st st')) \<and>
            (\<forall>a \<in> set (auth_attempts (added st st')). fst (snd a) = x \<longrightarrow> \<not> snd (snd (snd a)))))"
  using assms
proof (induction "Suc (uiBlocks cfg) - b" arbitrary: b bF cnt st rule: less_induct)
  case less
  from less.prems(1) show ?case
  proof (cases rule: write_blocks_cases)
    case (finished cnt')
    then show ?thesis by simp
  next
    case (aborted m)
    have 1: "\<forall>a \<in> set (auth_attempts (added st st')). b \<le> fst (snd a)"
      using aborted(9) by simp
    from aborted(8) show ?thesis
    proof
      assume "added st st' \<noteq> [] \<and> last (added st st') = Select None False"
      then show ?thesis using 1 by blast
    next
      assume a: "auth_attempts (added st st') \<noteq> [] \<and>
        (\<forall>a \<in> set (auth_attempts (added st st')). fst (snd a) = b \<and> \<not> snd (snd (snd a)))"
      then obtain a0 where "a0 \<in> set (auth_attempts (added st st'))"
        by (cases "auth_attempts (added st st')") auto
      then have "b \<in> (\<lambda>a. fst (snd a)) ` set (auth_attempts (added st st'))"
        using a by force
      then show ?thesis using 1 a by blast
    qed
  next
    case (step bF1 cnt1 st1 bF2 st2)
    note fl = write_block_flow [OF step(8)]
    note sp = write_blocks_split [OF step(3,4,8,9)]
    have meas: "Suc (uiBlocks cfg) - (b + 1) < Suc (uiBlocks cfg) - b"
      using step(1) by simp
    note IH = less.hyps [OF meas step(9)]
    define X1 where "X1 = added st st1 @ added st1 st2"
    define X' where "X' = added st2 st'"
    have X: "added st st' = X1 @ X'"
      using extends_trans(2) [OF extends_trans(1) [OF step(3) fl(1)] sp(4)]
        extends_trans(2) [OF step(3) fl(1)]
      by (simp add: X1_def X'_def)
    have a1: "\<forall>a \<in> set (auth_attempts X1). fst (snd a) = b"
      using step(10) fl(5) by (simp add: X1_def auth_attempts_append)
    have a': "\<forall>a \<in> set (auth_attempts X'). b + 1 \<le> fst (snd a)"
      using IH by (simp add: X'_def)
    have 1: "\<forall>a \<in> set (auth_attempts (added st st')). b \<le> fst (snd a)"
      unfolding X using a1 a' by (fastforce simp: auth_attempts_append)
    have 2: "added st st' \<noteq> [] \<and> last (added st st') = Select None False \<or>
       (\<exists>x. x \<in> (\<lambda>a. fst (snd a)) ` set (auth_attempts (added st st')) \<and>
            (\<forall>a \<in> set (auth_attempts (added st st')). fst (snd a) = x \<longrightarrow> \<not> snd (snd (snd a))))"
      if "\<not> ret"
    proof -
      from IH that consider "X' \<noteq> [] \<and> last X' = Select None False"
        | x where "x \<in> (\<lambda>a. fst (snd a)) ` set (auth_attempts X')"
            "\<forall>a \<in> set (auth_attempts X'). fst (snd a) = x \<longrightarrow> \<not> snd (snd (snd a))"
        unfolding X'_def by blast
      then show ?thesis
      proof cases
        case 1
        then show ?thesis unfolding X by simp
      next
        case 2
        have "b + 1 \<le> x" using 2(1) a' by auto
        then have "\<forall>a \<in> set (auth_attempts X1). fst (snd a) \<noteq> x" using a1 by auto
        then have "\<forall>a \<in> set (auth_attempts (X1 @ X')). fst (snd a) = x \<longrightarrow> \<not> snd (snd (snd a))"
          using 2(2) by (auto simp: auth_attempts_append)
        moreover have "x \<in> (\<lambda>a. fst (snd a)) ` set (auth_attempts (X1 @ X'))"
          using 2(1) by (auto simp: auth_attempts_append)
        ultimately show ?thesis unfolding X by blast
      qed
    qed
    show ?thesis using 1 2 by blast
  qed
qed


lemma sector_first:
  assumes "is_first_block b"
  shows "hd (sector_blocks (get_trailer_block b)) = b"
proof (cases "b < 128")
  case True
  then have m: "b mod 4 = 0" using assms by (simp add: is_first_block_def)
  have bd: "b = 4 * (b div 4) + b mod 4" by simp
  have b4: "4 * (b div 4) = b" using bd m by simp
  have g: "get_trailer_block b = b + 3" using True b4 by (simp add: trailer_of_block)
  have "b div 4 < 32" using True by simp
  then have lt: "b + 3 < 128" using b4 by linarith
  have "(b + 3) div 4 = b div 4" using m by (simp add: div_add1_eq)
  then have d: "4 * ((b + 3) div 4) = b" using b4 by simp
  have "sector_blocks (b + 3) = [b ..< b + 4]"
    using lt by (simp add: sector_blocks_def d)
  then show ?thesis by (simp add: g upt_conv_Cons)
next
  case False
  then have m: "b mod 16 = 0" using assms by (simp add: is_first_block_def)
  have bd: "b = 16 * (b div 16) + b mod 16" by simp
  have b4: "16 * (b div 16) = b" using bd m by simp
  have g: "get_trailer_block b = b + 15" using False b4 by (simp add: trailer_of_block)
  have "(b + 15) div 16 = b div 16" using m by (simp add: div_add1_eq)
  then have d: "16 * ((b + 15) div 16) = b" using b4 by simp
  have "sector_blocks (b + 15) = [b ..< b + 16]"
    using False by (simp add: sector_blocks_def d)
  then show ?thesis by (simp add: g upt_conv_Cons)
qed

lemma sector_hd: "hd (sector_blocks t) \<in> set (sector_blocks t)"
  by (simp add: sector_blocks_def upt_conv_Cons)

lemma discipline_nonempty: "sector_discipline ds t ws \<Longrightarrow> ws \<noteq> []"
  by (cases ds) auto

lemma write_blocks_entered:
  assumes "write_blocks T cfg b bF cnt st = (ret, st')"
    and "is_trailer_block t" and "t \<le> uiBlocks cfg" and "b \<le> t"
  shows "if get_trailer_block b = t \<and> \<not> is_first_block b
      then sector_writes t (write_results (added st st')) \<noteq> []
      else (sector_writes t (write_results (added st st')) \<noteq> [] \<longleftrightarrow>
              (\<exists>a \<in> set (auth_attempts (added st st')).
                  fst (snd a) = hd (sector_blocks t) \<and> snd (snd (snd a))))"
  using assms
proof (induction "Suc (uiBlocks cfg) - b" arbitrary: b bF cnt st rule: less_induct)
  case less
  note disc = write_blocks_discipline [OF less.prems]
  show ?case
  proof (cases "get_trailer_block b = t \<and> \<not> is_first_block b")
    case True
    then have "sector_writes t (write_results (added st st')) \<noteq> []"
      using disc discipline_nonempty by (cases bF) auto
    then show ?thesis using True by simp
  next
    case other: False
    from less.prems(1) show ?thesis
    proof (cases rule: write_blocks_cases)
      case (finished cnt')
      then show ?thesis using less.prems(3,4) by simp
    next
      case (aborted m)
      have "sector_writes t (write_results (added st st')) \<noteq> [] \<longleftrightarrow>
              (\<exists>a \<in> set (auth_attempts (added st st')).
                  fst (snd a) = hd (sector_blocks t) \<and> snd (snd (snd a)))"
        using aborted(5,9) by (auto simp: sector_writes_def)
      then show ?thesis unfolding if_not_P [OF other] .
    next
      case (step bF1 cnt1 st1 bF2 st2)
      note fl = write_block_flow [OF step(8)]
      note sp = write_blocks_split [OF step(3,4,8,9)]
      define ws1 where "ws1 = write_results (added st1 st2)"
      define ws' where "ws' = write_results (added st2 st')"
      define X1 where "X1 = added st st1 @ added st1 st2"
      define X' where "X' = added st2 st'"
      have ws: "write_results (added st st') = ws1 @ ws'"
        using sp(1) by (simp add: ws1_def ws'_def)
      have sw: "sector_writes t (write_results (added st st')) =
          sector_writes t ws1 @ sector_writes t ws'"
        unfolding ws by (rule sector_writes_append)
      have only: "fst ` set ws1 \<subseteq> {b}" using sp(5) by (simp add: ws1_def)
      have X: "added st st' = X1 @ X'"
        using extends_trans(2) [OF extends_trans(1) [OF step(3) fl(1)] sp(4)]
          extends_trans(2) [OF step(3) fl(1)]
        by (simp add: X1_def X'_def)
      have a1: "\<forall>a \<in> set (auth_attempts X1). fst (snd a) = b"
        using step(10) fl(5) by (simp add: X1_def auth_attempts_append)
      have a1': "auth_attempts X1 = auth_attempts (added st st1)"
        using fl(5) by (simp add: X1_def auth_attempts_append)
      have meas: "Suc (uiBlocks cfg) - (b + 1) < Suc (uiBlocks cfg) - b"
        using step(1) by simp
      show ?thesis
      proof (cases "get_trailer_block b = t")
        case False
        have s1: "sector_writes t ws1 = []"
          using sector_writes_other [OF less.prems(2) only False] .
        have "b \<noteq> t" using False trailer_self(1) [OF less.prems(2)] by auto
        then have le: "b + 1 \<le> t" using less.prems(4) by simp
        have c: "\<not> (get_trailer_block (b + 1) = t \<and> \<not> is_first_block (b + 1))"
          using False trailer_next(1) [of b] trailer_self(2) [of b] by (cases "is_trailer_block b") auto
        have IH: "sector_writes t ws' \<noteq> [] \<longleftrightarrow>
            (\<exists>a \<in> set (auth_attempts X'). fst (snd a) = hd (sector_blocks t) \<and> snd (snd (snd a)))"
          using less.hyps [OF meas step(9) less.prems(2,3) le]
          unfolding if_not_P [OF c] ws'_def X'_def .
        have "get_trailer_block (hd (sector_blocks t)) = t"
          using in_sector [OF less.prems(2)] sector_hd by blast
        then have "hd (sector_blocks t) \<noteq> b" using False by auto
        then have "\<forall>a \<in> set (auth_attempts X1). fst (snd a) \<noteq> hd (sector_blocks t)"
          using a1 by auto
        then have eqv: "(\<exists>a \<in> set (auth_attempts X').
              fst (snd a) = hd (sector_blocks t) \<and> snd (snd (snd a))) \<longleftrightarrow>
            (\<exists>a \<in> set (auth_attempts (added st st')).
              fst (snd a) = hd (sector_blocks t) \<and> snd (snd (snd a)))"
          unfolding X by (auto simp: auth_attempts_append)
        have "(sector_writes t (write_results (added st st')) \<noteq> []) =
            (sector_writes t ws' \<noteq> [])"
          by (simp only: sw s1 append_Nil)
        also have "\<dots> = (\<exists>a \<in> set (auth_attempts X').
              fst (snd a) = hd (sector_blocks t) \<and> snd (snd (snd a)))"
          by (rule IH)
        also note eqv
        finally show ?thesis unfolding if_not_P [OF other] .
      next
        case own: True
        then have fb: "is_first_block b" using other by simp
        then have nt: "\<not> is_trailer_block b" using first_not_trailer by blast
        note nx = trailer_next [OF nt]
        have le: "b + 1 \<le> t" using nx(3) own by simp
        have c: "get_trailer_block (b + 1) = t \<and> \<not> is_first_block (b + 1)"
          using nx(1,2) own by simp
        have "sector_writes t ws' \<noteq> []"
          using write_blocks_discipline [OF step(9) less.prems(2,3) le] discipline_nonempty
          unfolding if_P [OF c] ws'_def by (cases bF2) auto
        then have l: "sector_writes t (write_results (added st st')) \<noteq> []"
          unfolding sw by simp
        have "hd (sector_blocks t) = b" using sector_first [OF fb] own by simp
        moreover obtain a where "a \<in> set (auth_attempts X1)" "snd (snd (snd a))"
          using step(11) fb a1' by auto
        ultimately have "\<exists>a \<in> set (auth_attempts (added st st')).
              fst (snd a) = hd (sector_blocks t) \<and> snd (snd (snd a))"
          unfolding X using a1 by (auto simp: auth_attempts_append)
        then have "sector_writes t (write_results (added st st')) \<noteq> [] \<longleftrightarrow>
              (\<exists>a \<in> set (auth_attempts (added st st')).
                  fst (snd a) = hd (sector_blocks t) \<and> snd (snd (snd a)))"
          using l by simp
        then show ?thesis unfolding if_not_P [OF other] .
      qed
    qed
  qed
qed

lemma trailer_sector:
  assumes "is_trailer_block t"
  shows "\<exists>lo. lo \<le> t \<and> sector_blocks t = [lo ..< Suc t]"
proof (cases "t < 128")
  case True
  then have t3: "t mod 4 = 3" using assms by (simp add: trailer_iff)
  have td: "t = 4 * (t div 4) + t mod 4" by simp
  have t: "t = 4 * (t div 4) + 3" using td t3 by simp
  have "sector_blocks t = [4 * (t div 4) ..< 4 * (t div 4) + 4]"
    using True by (simp add: sector_blocks_def)
  moreover have "4 * (t div 4) + 4 = Suc t" using t by linarith
  moreover have "4 * (t div 4) \<le> t" using t by linarith
  ultimately show ?thesis by metis
next
  case False
  then have t3: "t mod 16 = 15" using assms by (simp add: trailer_iff)
  have td: "t = 16 * (t div 16) + t mod 16" by simp
  have t: "t = 16 * (t div 16) + 15" using td t3 by simp
  have "sector_blocks t = [16 * (t div 16) ..< 16 * (t div 16) + 16]"
    using False by (simp add: sector_blocks_def)
  moreover have "16 * (t div 16) + 16 = Suc t" using t by linarith
  moreover have "16 * (t div 16) \<le> t" using t by linarith
  ultimately show ?thesis by metis
qed

lemma data_blocks_distinct:
  assumes "is_trailer_block t"
  shows "distinct (data_blocks t)" and "t \<notin> set (data_blocks t)"
    and "set (data_blocks t) \<subseteq> set (sector_blocks t)"
proof -
  obtain lo where lo: "lo \<le> t" "sector_blocks t = [lo ..< Suc t]"
    using trailer_sector [OF assms] by blast
  have b: "butlast (sector_blocks t) = [lo ..< t]" using lo by simp
  show "distinct (data_blocks t)" and "t \<notin> set (data_blocks t)"
    and "set (data_blocks t) \<subseteq> set (sector_blocks t)"
    unfolding data_blocks_def b by (auto simp: lo(2))
qed

lemma refused_sector:
  "x \<in> set (sector_blocks t) \<Longrightarrow>
     x \<in> set (refused (sector_writes t ws)) \<longleftrightarrow> x \<in> set (refused ws)"
  by (auto simp: refused_def sector_writes_def)

lemma discipline_of_sector:
  assumes "is_trailer_block t"
    and "sector_discipline (data_blocks t) t (sector_writes t ws)"
  shows "map fst (sector_writes t ws) =
           until_failure (\<lambda>x. x \<notin> set (refused ws)) (data_blocks t) @ [t]"
proof -
  note d = data_blocks_distinct [OF assms(1)]
  have "until_failure (\<lambda>x. x \<notin> set (refused (sector_writes t ws))) (data_blocks t) =
      until_failure (\<lambda>x. x \<notin> set (refused ws)) (data_blocks t)"
    using d(3) refused_sector [of _ t ws] by (intro until_failure_cong) auto
  then show ?thesis
    using discipline_blocks [OF assms(2) d(1,2)] by simp
qed

text \<open>
  Claim C7. In the second half of the loop body of \<open>write_card\<close>: for a trailer block
  exactly one write is sent, whether \<open>bFailure\<close> is set or not, carrying Key A, the
  access bits and Key B of the dump's block, and the flag is set when the write fails and
  kept otherwise; for a data block other than block 0 exactly one write with the dump's
  16 bytes is sent when the flag is clear, and the flag becomes set exactly when that
  write fails; with the flag set (or for block 0) nothing is sent and the flag is kept.

  Over a whole pass of \<open>write_card\<close>, whatever the reader answers: the writes go to
  strictly ascending blocks, so no block is written twice. For every sector whose trailer
  \<open>t\<close> lies on the card: when an authentication for the first block of the sector was
  accepted, the pass has written the data blocks of the sector (block 0 left out) in
  order up to and including the first whose write was refused, none of the data blocks
  after that one, and then the trailer, once; otherwise the pass has ended before the
  sector and has sent no write to it. Every write carries the dump's bytes for its block,
  when the blocks of the dump and \<open>mp\<close> are 16 bytes long. A pass that returns true
  has written every trailer. A pass that returns false has ended with the message that
  the tag was removed or that an authentication failed, and its last exchange is a
  reselection that found no tag or it has offered keys for some block of which none was
  accepted. On a card whose last block is a trailer (the 1K and 4K cards of \<open>main\<close>)
  the flags shown are the clear one shown before block 0 and then one for every trailer
  written, set exactly when a write to a block of that sector, data or trailer, was
  refused.
\<close>

theorem write_sector_discipline:
  assumes "write_block T b bF st = (bF', st')"
    and "length (mtDump st ! b) = 16" and "length (mpd_abtData st) = 16"
    and "res = write_card T cfg st0"
    and "tr = added st0 (snd res)"
    and "ws = write_results tr"
  shows "extends st st' \<and>
    (if is_trailer_block b then
       \<exists>r. added st st' =
              [Mifare MC_WRITE b
                 (abtKeyA (mtDump st ! b) @ abtAccessBits (mtDump st ! b) @ abtKeyB (mtDump st ! b))
                 r] \<and>
           bF' = (bF \<or> \<not> r)
     else if b \<noteq> 0 \<and> \<not> bF then
       \<exists>r. added st st' = [Mifare MC_WRITE b (mtDump st ! b) r] \<and> bF' = (\<not> r)
     else added st st' = [] \<and> bF' = bF) \<and>
    sorted_wrt (<) (map fst ws) \<and>
    (fst res \<longrightarrow> (\<forall>t. t \<le> uiBlocks cfg \<and> is_trailer_block t \<longrightarrow> t \<in> set (map fst ws))) \<and>
    (\<not> fst res \<longrightarrow>
       (last (stdout (snd res)) = Tag_removed \<or> (\<exists>x. last (stdout (snd res)) = Auth_failed x)) \<and>
       (tr \<noteq> [] \<and> last tr = Select None False \<or>
        (\<exists>x. x \<in> (\<lambda>a. fst (snd a)) ` set (auth_attempts tr) \<and>
             (\<forall>a \<in> set (auth_attempts tr). fst (snd a) = x \<longrightarrow> \<not> snd (snd (snd a)))))) \<and>
    (\<forall>t. is_trailer_block t \<and> t \<le> uiBlocks cfg \<longrightarrow>
       (if \<exists>a \<in> set (auth_attempts tr). fst (snd a) = hd (sector_blocks t) \<and> snd (snd (snd a))
        then map fst (sector_writes t ws) =
               until_failure (\<lambda>x. x \<notin> set (refused ws)) (data_blocks t) @ [t]
        else sector_writes t ws = [])) \<and>
    ((\<forall>x \<le> uiBlocks cfg. length (mtDump st0 ! x) = 16) \<and> length (mpd_abtData st0) = 16 \<longrightarrow>
       (\<forall>w \<in> set ws. fst (snd w) = dump_bytes (mtDump st0) (fst w))) \<and>
    (is_trailer_block (uiBlocks cfg) \<longrightarrow>
       marks (printed st0 (snd res)) =
         False # map (\<lambda>t. sector_failed t ws) (filter is_trailer_block (map fst ws)))"
proof -
  define st1 where "st1 = st0\<lparr>stdout := stdout st0 @ [Writing (uiBlocks cfg + 1)]\<rparr>"
  obtain ret st2 where run: "write_blocks T cfg 0 False 0 st1 = (ret, st2)"
    by (cases "write_blocks T cfg 0 False 0 st1")
  have wc: "res = (ret, st2)"
    using run assms(4) by (simp only: write_card_def st1_def [symmetric])
  have tr: "tr = added st1 st2"
    using assms(5) wc by (simp add: st1_def extends_upd)
  have ws: "ws = write_results (added st1 st2)"
    using assms(6) tr by simp
  have wt: "write_targets st1 st2 = map fst ws"
    by (simp add: ws write_targets_def)
  note l = write_blocks_targets [OF run]
  have 1: "sorted_wrt (<) (map fst ws)"
    using l unfolding wt by blast
  have 2: "fst res \<longrightarrow> (\<forall>t. t \<le> uiBlocks cfg \<and> is_trailer_block t \<longrightarrow> t \<in> set (map fst ws))"
    using l unfolding wt wc by simp
  have 3: "\<not> fst res \<longrightarrow>
       (last (stdout (snd res)) = Tag_removed \<or> (\<exists>x. last (stdout (snd res)) = Auth_failed x)) \<and>
       (tr \<noteq> [] \<and> last tr = Select None False \<or>
        (\<exists>x. x \<in> (\<lambda>a. fst (snd a)) ` set (auth_attempts tr) \<and>
             (\<forall>a \<in> set (auth_attempts tr). fst (snd a) = x \<longrightarrow> \<not> snd (snd (snd a)))))"
    using write_blocks_abort [OF run] write_blocks_refusal [OF run] unfolding wc tr by simp
  have f0: "is_first_block 0" by (simp add: is_first_block_def)
  have 4: "\<forall>t. is_trailer_block t \<and> t \<le> uiBlocks cfg \<longrightarrow>
       (if \<exists>a \<in> set (auth_attempts tr). fst (snd a) = hd (sector_blocks t) \<and> snd (snd (snd a))
        then map fst (sector_writes t ws) =
               until_failure (\<lambda>x. x \<notin> set (refused ws)) (data_blocks t) @ [t]
        else sector_writes t ws = [])"
  proof (intro allI impI)
    fix t assume t: "is_trailer_block t \<and> t \<le> uiBlocks cfg"
    then have d: "sector_writes t ws = [] \<or> sector_discipline (data_blocks t) t (sector_writes t ws)"
      using write_blocks_discipline [OF run, of t] f0 by (simp add: ws)
    have e: "sector_writes t ws \<noteq> [] \<longleftrightarrow>
        (\<exists>a \<in> set (auth_attempts tr). fst (snd a) = hd (sector_blocks t) \<and> snd (snd (snd a)))"
      using write_blocks_entered [OF run, of t] t f0 by (simp add: ws tr)
    show "if \<exists>a \<in> set (auth_attempts tr). fst (snd a) = hd (sector_blocks t) \<and> snd (snd (snd a))
        then map fst (sector_writes t ws) =
               until_failure (\<lambda>x. x \<notin> set (refused ws)) (data_blocks t) @ [t]
        else sector_writes t ws = []"
    proof (cases "sector_writes t ws = []")
      case True
      then show ?thesis using e by simp
    next
      case False
      then have "sector_discipline (data_blocks t) t (sector_writes t ws)" using d by simp
      then have "map fst (sector_writes t ws) =
               until_failure (\<lambda>x. x \<notin> set (refused ws)) (data_blocks t) @ [t]"
        using discipline_of_sector t by blast
      then show ?thesis using e False by simp
    qed
  qed
  have 5: "(\<forall>x \<le> uiBlocks cfg. length (mtDump st0 ! x) = 16) \<and> length (mpd_abtData st0) = 16 \<longrightarrow>
       (\<forall>w \<in> set ws. fst (snd w) = dump_bytes (mtDump st0) (fst w))"
    using write_blocks_bytes [OF run] by (simp add: ws st1_def)
  have 6: "is_trailer_block (uiBlocks cfg) \<longrightarrow>
       marks (printed st0 (snd res)) =
         False # map (\<lambda>t. sector_failed t ws) (filter is_trailer_block (map fst ws))"
  proof
    assume u: "is_trailer_block (uiBlocks cfg)"
    obtain out where out: "stdout st2 = stdout st1 @ out"
      and m: "marks out = False # map (\<lambda>t. sector_failed t ws) (filter is_trailer_block (map fst ws))"
      using write_blocks_marks [OF run u] f0 by (auto simp: ws)
    have "printed st0 (snd res) = Writing (uiBlocks cfg + 1) # out"
      using out by (simp add: printed_def wc st1_def)
    then show "marks (printed st0 (snd res)) =
         False # map (\<lambda>t. sector_failed t ws) (filter is_trailer_block (map fst ws))"
      using m by simp
  qed
  show ?thesis
    using write_block_sends [OF assms(1,2,3)] 1 2 3 4 5 6 by blast
qed

section \<open>A write pass with a reader whose answers are known\<close>

lemma write_answer:
  assumes "writes_decided T cfg okw" "nfc_initiator_mifare_cmd T MC_WRITE b st = (r, st')"
  shows "r = okw b"
  using mifare_cmd_result(1) [OF assms(2)] assms(1) by (simp add: writes_decided_def)

lemma write_first_decided:
  assumes "writes_decided T cfg okw"
  shows "\<exists>c. write_first T cfg b bF cnt st = Inr c"
proof -
  obtain cnt1 st1 where pr: "(if b \<noteq> uiBlocks cfg
      then print_success_or_failure bF cnt st else (cnt, st)) = (cnt1, st1)"
    by (cases "if b \<noteq> uiBlocks cfg then print_success_or_failure bF cnt st else (cnt, st)")
  have sel: "fst (nfc_initiator_select_tag T None True st1)"
  proof -
    have "fst (select_io T (pnd st1) None) \<noteq> None"
      using assms by (simp add: writes_decided_def)
    then show ?thesis
      by (cases "select_io T (pnd st1) None")
        (auto simp: nfc_initiator_select_tag_def split: option.splits)
  qed
  then obtain st2 where s2: "nfc_initiator_select_tag T None True st1 = (True, st2)"
    by (cases "nfc_initiator_select_tag T None True st1") simp
  have au: "fst (authenticate T cfg b st0)" for st0 :: "'a state"
    using authenticate_accepts [of T cfg b st0] assms by (simp add: writes_decided_def)
  have "\<exists>c. write_auth T cfg b cnt1 st0 = Inr c" for st0 :: "'a state"
    using au [of st0] by (cases "authenticate T cfg b st0") (auto simp: write_auth_def)
  then show ?thesis
    unfolding write_first_def pr using s2 by (cases bF) simp_all
qed

lemma write_block_decided:
  assumes "writes_decided T cfg okw" "write_block T b bF st = (bF', st')"
  shows "answers (write_results (added st st')) =
           (if is_trailer_block b \<or> (b \<noteq> 0 \<and> \<not> bF) then [(b, okw b)] else [])"
    and "bF' = (if is_trailer_block b then bF \<or> \<not> okw b
                else if b \<noteq> 0 \<and> \<not> bF then \<not> okw b else bF)"
proof -
  have "answers (write_results (added st st')) =
           (if is_trailer_block b \<or> (b \<noteq> 0 \<and> \<not> bF) then [(b, okw b)] else []) \<and>
      bF' = (if is_trailer_block b then bF \<or> \<not> okw b
                else if b \<noteq> 0 \<and> \<not> bF then \<not> okw b else bF)"
  proof (cases "is_trailer_block b")
    case True
    define st0 where "st0 = st\<lparr>mpd_abtData :=
        memcpy (memcpy (memcpy (mpd_abtData st) 0 (abtKeyA (mtDump st ! b)) 0 6)
                  6 (abtAccessBits (mtDump st ! b)) 0 4)
          10 (abtKeyB (mtDump st ! b)) 0 6\<rparr>"
    obtain r st1 where cmd: "nfc_initiator_mifare_cmd T MC_WRITE b st0 = (r, st1)"
      by (cases "nfc_initiator_mifare_cmd T MC_WRITE b st0")
    note m = mifare_cmd_extends [OF cmd]
    have r: "r = okw b" using write_answer [OF assms(1) cmd] .
    have res: "bF' = (bF \<or> \<not> r)"
        "st' = (if r then st1 else st1\<lparr>stdout := stdout st1 @ [Trailer_write_failed b]\<rparr>)"
      using assms(2) True cmd by (cases r; simp add: write_block_def st0_def [symmetric])+
    have "added st st' = added st0 st1"
      unfolding res(2) st0_def by (simp add: extends_upd)
    then show ?thesis using True m(2) res(1) r by (simp add: answers_def)
  next
    case False
    show ?thesis
    proof (cases "b \<noteq> 0 \<and> \<not> bF")
      case skip: False
      then have "bF' = bF" "st' = st"
        using assms(2) False by (auto simp: write_block_def split: if_splits)
      then show ?thesis using False skip by (simp add: extends_refl answers_def)
    next
      case True
      define st0 where "st0 = st\<lparr>mpd_abtData := memcpy (mpd_abtData st) 0 (mtDump st ! b) 0 16\<rparr>"
      obtain r st1 where cmd: "nfc_initiator_mifare_cmd T MC_WRITE b st0 = (r, st1)"
        by (cases "nfc_initiator_mifare_cmd T MC_WRITE b st0")
      note m = mifare_cmd_extends [OF cmd]
      have r: "r = okw b" using write_answer [OF assms(1) cmd] .
      have res: "bF' = (\<not> r)" "st' = st1"
        using assms(2) False True cmd by (cases r; simp add: write_block_def st0_def [symmetric])+
      have "added st st' = added st0 st1"
        unfolding res(2) st0_def by (simp add: extends_upd)
      then show ?thesis using False True m(2) res(1) r by (simp add: answers_def)
    qed
  qed
  then show "answers (write_results (added st st')) =
           (if is_trailer_block b \<or> (b \<noteq> 0 \<and> \<not> bF) then [(b, okw b)] else [])"
    and "bF' = (if is_trailer_block b then bF \<or> \<not> okw b
                else if b \<noteq> 0 \<and> \<not> bF then \<not> okw b else bF)"
    by simp_all
qed

lemma write_blocks_plan:
  assumes "write_blocks T cfg b bF cnt st = (ret, st')" and "writes_decided T cfg okw"
  shows "ret \<and> answers (write_results (added st st')) = write_plan okw (uiBlocks cfg) b bF"
  using assms
proof (induction "Suc (uiBlocks cfg) - b" arbitrary: b bF cnt st rule: less_induct)
  case less
  from less.prems(1) show ?case
  proof (cases rule: write_blocks_cases)
    case (finished cnt')
    then show ?thesis by (simp add: write_plan.simps [of okw "uiBlocks cfg" b] answers_def)
  next
    case (aborted m)
    then show ?thesis using write_first_decided [OF less.prems(2), of b bF cnt st] by simp
  next
    case (step bF1 cnt1 st1 bF2 st2)
    note sp = write_blocks_split [OF step(3,4,8,9)]
    note d = write_block_decided [OF less.prems(2) step(8)]
    have meas: "Suc (uiBlocks cfg) - (b + 1) < Suc (uiBlocks cfg) - b"
      using step(1) by simp
    note IH = less.hyps [OF meas step(9) less.prems(2)]
    have b1: "bF1 = (\<not> is_first_block b \<and> bF)" using step(2) by simp
    have "answers (write_results (added st st')) =
        answers (write_results (added st1 st2)) @ write_plan okw (uiBlocks cfg) (b + 1) bF2"
      unfolding sp(1) using IH by (simp add: answers_def)
    then show ?thesis
      using IH d step(1) unfolding b1
      by (simp add: write_plan.simps [of okw "uiBlocks cfg" b])
  qed
qed

lemma write_card_plan:
  assumes "writes_decided T cfg okw"
  shows "fst (write_card T cfg st)"
    and "answers (write_results (added st (snd (write_card T cfg st)))) =
           write_plan okw (uiBlocks cfg) 0 False"
proof -
  define st1 where "st1 = st\<lparr>stdout := stdout st @ [Writing (uiBlocks cfg + 1)]\<rparr>"
  obtain ret st2 where run: "write_blocks T cfg 0 False 0 st1 = (ret, st2)"
    by (cases "write_blocks T cfg 0 False 0 st1")
  have wc: "write_card T cfg st = (ret, st2)"
    using run by (simp only: write_card_def st1_def [symmetric])
  show "fst (write_card T cfg st)"
    and "answers (write_results (added st (snd (write_card T cfg st)))) =
           write_plan okw (uiBlocks cfg) 0 False"
    using write_blocks_plan [OF run assms] unfolding wc by (simp_all add: st1_def extends_upd)
qed

lemma plan_w5: "write_plan (\<lambda>b. b \<noteq> 5) 63 0 False =
    [(1, True), (2, True), (3, True), (4, True), (5, False)] @ map (\<lambda>b. (b, True)) [7 ..< 64]"
  by code_simp

lemma answers_fst: "map fst (answers ws) = map fst ws"
  by (simp add: answers_def comp_def)

lemma answers_sector:
  "answers (sector_writes t ws) = filter (\<lambda>p. fst p \<in> set (sector_blocks t)) (answers ws)"
  by (simp add: answers_def sector_writes_def filter_map comp_def)

lemma refused_answers: "refused ws = map fst (filter (\<lambda>p. \<not> snd p) (answers ws))"
  by (simp add: answers_def refused_def filter_map comp_def)

lemma fresh_dump_bytes: "b < 256 \<Longrightarrow> dump_bytes (mtDump fresh) b = replicate 16 0"
proof -
  assume "b < 256"
  then have n: "mtDump fresh ! b = replicate 16 0" by (simp add: fresh_def)
  show ?thesis
    unfolding dump_bytes_def n using trailer_bytes [of "replicate 16 (0 :: byte_t)"] by simp
qed

lemma w5_sector_7:
  "filter (\<lambda>p. fst p \<in> set (sector_blocks 7))
     ([(1, True), (2, True), (3, True), (4, True), (5, False)] @ map (\<lambda>b. (b, True)) [7 ..< 64]) =
   [(4, True), (5, False), (7, True)]"
  by code_simp

lemma w5_refused:
  "map fst (filter (\<lambda>p. \<not> snd p)
     ([(1, True), (2, True), (3, True), (4, True), (5, False)] @ map (\<lambda>b. (b, True)) [7 ..< 64])) = [5]"
  by code_simp

lemma w5_expected: "until_failure (\<lambda>x. x \<notin> set [5]) (data_blocks 7) @ [7] = [4, 5, 7]"
  by code_simp

lemma w5_flags:
  "map (\<lambda>t. map fst (filter (\<lambda>p. \<not> snd p) (filter (\<lambda>p. fst p \<in> set (sector_blocks t))
       ([(1, True), (2, True), (3, True), (4, True), (5, False)] @ map (\<lambda>b. (b, True)) [7 ..< 64]))) \<noteq> [])
     (filter is_trailer_block (map fst
       ([(1, True), (2, True), (3, True), (4, True), (5, False)] @ map (\<lambda>b. (b, True)) [7 ..< 64]))) =
   [False, True] @ replicate 14 False"
  by code_simp

lemma w5_bound:
  "list_all (\<lambda>p. fst p < 256)
     ([(1, True), (2, True), (3, True), (4, True), (5, False)] @ map (\<lambda>b. (b, True)) [7 ..< 64])"
  by code_simp

theorem write_sector_discipline_witness:
  "is_trailer_block 7 \<and>
   added (fresh\<lparr>mtDump := (mtDump fresh)[7 := map of_nat [1 ..< 17]]\<rparr>)
     (snd (write_block (fixed_reader (\<lambda>mc b p. \<not> (mc = MC_WRITE \<and> b = 5)) True) 7 True
        (fresh\<lparr>mtDump := (mtDump fresh)[7 := map of_nat [1 ..< 17]]\<rparr>))) =
     [Mifare MC_WRITE 7 [1, 2, 3, 4, 5, 6, 7, 8, 9, 10, 11, 12, 13, 14, 15, 16] True] \<and>
   fst (write_block (fixed_reader (\<lambda>mc b p. \<not> (mc = MC_WRITE \<and> b = 5)) True) 7 True
        (fresh\<lparr>mtDump := (mtDump fresh)[7 := map of_nat [1 ..< 17]]\<rparr>)) \<and>
   fst (write_card (fixed_reader (\<lambda>mc b p. \<not> (mc = MC_WRITE \<and> b = 5)) True) (card_1k True) fresh) \<and>
   answers (write_results (added fresh (snd (write_card
       (fixed_reader (\<lambda>mc b p. \<not> (mc = MC_WRITE \<and> b = 5)) True) (card_1k True) fresh)))) =
     [(1, True), (2, True), (3, True), (4, True), (5, False)] @ map (\<lambda>b. (b, True)) [7 ..< 64] \<and>
   sorted_wrt (<) (map fst (write_results (added fresh (snd (write_card
       (fixed_reader (\<lambda>mc b p. \<not> (mc = MC_WRITE \<and> b = 5)) True) (card_1k True) fresh))))) \<and>
   (\<exists>a \<in> set (auth_attempts (added fresh (snd (write_card
       (fixed_reader (\<lambda>mc b p. \<not> (mc = MC_WRITE \<and> b = 5)) True) (card_1k True) fresh)))).
      fst (snd a) = 4 \<and> snd (snd (snd a))) \<and>
   map fst (sector_writes 7 (write_results (added fresh (snd (write_card
       (fixed_reader (\<lambda>mc b p. \<not> (mc = MC_WRITE \<and> b = 5)) True) (card_1k True) fresh))))) =
     [4, 5, 7] \<and>
   map (\<lambda>w. fst (snd w)) (write_results (added fresh (snd (write_card
       (fixed_reader (\<lambda>mc b p. \<not> (mc = MC_WRITE \<and> b = 5)) True) (card_1k True) fresh)))) =
     replicate 62 (replicate 16 0) \<and>
   marks (printed fresh (snd (write_card
       (fixed_reader (\<lambda>mc b p. \<not> (mc = MC_WRITE \<and> b = 5)) True) (card_1k True) fresh))) =
     [False, False, True] @ replicate 14 False \<and>
   \<not> fst (write_card (fixed_reader (\<lambda>mc b p. \<not> (mc = MC_WRITE \<and> b = 1)) False)
       (card_1k True) fresh) \<and>
   last (stdout (snd (write_card (fixed_reader (\<lambda>mc b p. \<not> (mc = MC_WRITE \<and> b = 1)) False)
       (card_1k True) fresh))) = Tag_removed \<and>
   last (added fresh (snd (write_card (fixed_reader (\<lambda>mc b p. \<not> (mc = MC_WRITE \<and> b = 1)) False)
       (card_1k True) fresh))) = Select None False \<and>
   (added fresh (snd (write_card (fixed_reader (\<lambda>mc b p. \<not> (mc = MC_WRITE \<and> b = 1)) False)
       (card_1k True) fresh)) \<noteq> [] \<and>
    last (added fresh (snd (write_card (fixed_reader (\<lambda>mc b p. \<not> (mc = MC_WRITE \<and> b = 1)) False)
       (card_1k True) fresh))) = Select None False \<or>
    (\<exists>x. x \<in> (\<lambda>a. fst (snd a)) ` set (auth_attempts (added fresh (snd (write_card
              (fixed_reader (\<lambda>mc b p. \<not> (mc = MC_WRITE \<and> b = 1)) False) (card_1k True) fresh)))) \<and>
         (\<forall>a \<in> set (auth_attempts (added fresh (snd (write_card
              (fixed_reader (\<lambda>mc b p. \<not> (mc = MC_WRITE \<and> b = 1)) False) (card_1k True) fresh)))).
            fst (snd a) = x \<longrightarrow> \<not> snd (snd (snd a)))))"
proof -
  let ?T = "fixed_reader (\<lambda>mc b p. \<not> (mc = MC_WRITE \<and> b = 5)) True"
  let ?st = "fresh\<lparr>mtDump := (mtDump fresh)[7 := map of_nat [1 ..< 17]]\<rparr>"
  let ?r = "write_card ?T (card_1k True) fresh"
  let ?ws = "write_results (added fresh (snd ?r))"
  let ?L = "[(1, True), (2, True), (3, True), (4, True), (5, False)] @ map (\<lambda>b. (b, True)) [7 ..< 64]"
  have t7: "is_trailer_block 7" by (simp add: is_trailer_block_def)
  have u: "uiBlocks (card_1k True) = 63" by (simp add: card_1k_def)
  have t63: "is_trailer_block (uiBlocks (card_1k True))" by (simp add: u is_trailer_block_def)
  have blk: "mtDump ?st ! 7 = [1, 2, 3, 4, 5, 6, 7, 8, 9, 10, 11, 12, 13, 14, 15, 16]"
    by (simp add: fresh_def upt_rec)
  have l: "length (mtDump ?st ! 7) = 16" "length (mpd_abtData ?st) = 16"
    unfolding blk by (simp_all add: fresh_def)
  have r0: "write_block ?T 7 True ?st = (fst (write_block ?T 7 True ?st), snd (write_block ?T 7 True ?st))"
    by simp
  have ev: "added ?st (snd (write_block ?T 7 True ?st)) =
      [Mifare MC_WRITE 7 [1, 2, 3, 4, 5, 6, 7, 8, 9, 10, 11, 12, 13, 14, 15, 16] True]"
    "fst (write_block ?T 7 True ?st)"
    by (simp_all add: write_block_def t7 nfc_initiator_mifare_cmd_def mifare_param_def
        fixed_reader_def added_def memcpy_def abtKeyA_def abtAccessBits_def abtKeyB_def
        fresh_def upt_rec)
  have d: "writes_decided ?T (card_1k True) (\<lambda>b. b \<noteq> 5)"
    by (simp add: writes_decided_def fixed_reader_def auth_cmd_def)
  note pl = write_card_plan [OF d, of fresh]
  have ret: "fst ?r" using pl(1) .
  have an: "answers ?ws = ?L" using pl(2) by (simp only: u plan_w5)
  have len: "\<forall>x \<le> uiBlocks (card_1k True). length (mtDump fresh ! x) = 16"
    "length (mpd_abtData fresh) = 16"
    by (simp_all add: u fresh_def)
  note inst = write_sector_discipline [OF r0 l refl refl refl,
      where cfg = "card_1k True" and ?st0.0 = fresh]
  from inst have srt: "sorted_wrt (<) (map fst ?ws)" by blast
  from inst have "\<forall>t. is_trailer_block t \<and> t \<le> uiBlocks (card_1k True) \<longrightarrow>
     (if \<exists>a \<in> set (auth_attempts (added fresh (snd ?r))).
          fst (snd a) = hd (sector_blocks t) \<and> snd (snd (snd a))
      then map fst (sector_writes t ?ws) =
             until_failure (\<lambda>x. x \<notin> set (refused ?ws)) (data_blocks t) @ [t]
      else sector_writes t ?ws = [])"
    by blast
  then have imp7: "is_trailer_block 7 \<and> 7 \<le> uiBlocks (card_1k True) \<longrightarrow>
     (if \<exists>a \<in> set (auth_attempts (added fresh (snd ?r))).
          fst (snd a) = hd (sector_blocks 7) \<and> snd (snd (snd a))
      then map fst (sector_writes 7 ?ws) =
             until_failure (\<lambda>x. x \<notin> set (refused ?ws)) (data_blocks 7) @ [7]
      else sector_writes 7 ?ws = [])"
    by (rule spec)
  have le7: "7 \<le> uiBlocks (card_1k True)" by (simp add: u)
  have sec:
    "if \<exists>a \<in> set (auth_attempts (added fresh (snd ?r))).
          fst (snd a) = hd (sector_blocks 7) \<and> snd (snd (snd a))
     then map fst (sector_writes 7 ?ws) =
            until_failure (\<lambda>x. x \<notin> set (refused ?ws)) (data_blocks 7) @ [7]
     else sector_writes 7 ?ws = []"
    by (rule mp [OF imp7 conjI [OF t7 le7]])
  from inst have byt: "\<forall>w \<in> set ?ws. fst (snd w) = dump_bytes (mtDump fresh) (fst w)"
    using len by blast
  from inst have mk: "marks (printed fresh (snd ?r)) =
         False # map (\<lambda>t. sector_failed t ?ws) (filter is_trailer_block (map fst ?ws))"
    using t63 by blast
  have a7: "answers (sector_writes 7 ?ws) = [(4, True), (5, False), (7, True)]"
    unfolding answers_sector an by (rule w5_sector_7)
  then have ne: "sector_writes 7 ?ws \<noteq> []" by (auto simp: answers_def)
  have h7: "hd (sector_blocks 7) = 4" by (simp add: sector_blocks_def upt_conv_Cons)
  have au7: "\<exists>a \<in> set (auth_attempts (added fresh (snd ?r))).
      fst (snd a) = hd (sector_blocks 7) \<and> snd (snd (snd a))"
  proof (rule ccontr)
    assume n: "\<not> (\<exists>a \<in> set (auth_attempts (added fresh (snd ?r))).
      fst (snd a) = hd (sector_blocks 7) \<and> snd (snd (snd a)))"
    show False using sec ne unfolding if_not_P [OF n] by blast
  qed
  have au: "\<exists>a \<in> set (auth_attempts (added fresh (snd ?r))). fst (snd a) = 4 \<and> snd (snd (snd a))"
    using au7 unfolding h7 .
  have rf: "refused ?ws = [5]"
    unfolding refused_answers an by (rule w5_refused)
  have "map fst (sector_writes 7 ?ws) =
      until_failure (\<lambda>x. x \<notin> set (refused ?ws)) (data_blocks 7) @ [7]"
    using sec unfolding if_P [OF au7] .
  then have s7: "map fst (sector_writes 7 ?ws) = [4, 5, 7]"
    using rf w5_expected by simp
  have "\<forall>w \<in> set ?ws. fst w < 256"
  proof
    fix w assume "w \<in> set ?ws"
    then have "(fst w, snd (snd w)) \<in> set (answers ?ws)" by (auto simp: answers_def)
    then show "fst w < 256" using w5_bound unfolding an list_all_iff by fastforce
  qed
  then have "\<forall>w \<in> set ?ws. fst (snd w) = replicate 16 0"
    using byt fresh_dump_bytes by simp
  then have "map (\<lambda>w. fst (snd w)) ?ws = replicate (length ?ws) (replicate 16 0)"
    by (simp add: map_replicate_const [symmetric])
  moreover have "length ?ws = 62"
  proof -
    have "length ?ws = length (answers ?ws)" by (simp add: answers_def)
    also have "\<dots> = 62" unfolding an by simp
    finally show ?thesis .
  qed
  ultimately have by0: "map (\<lambda>w. fst (snd w)) ?ws = replicate 62 (replicate 16 0)" by simp
  have sf: "sector_failed t ?ws =
      (map fst (filter (\<lambda>p. \<not> snd p) (filter (\<lambda>p. fst p \<in> set (sector_blocks t)) ?L)) \<noteq> [])" for t
    by (simp only: sector_failed_def refused_answers answers_sector an)
  have "map fst ?ws = map fst ?L" using an answers_fst [of ?ws] by simp
  then have m: "marks (printed fresh (snd ?r)) = False # ([False, True] @ replicate 14 False)"
    unfolding mk sf by (simp only: w5_flags)
  let ?W = "fixed_reader (\<lambda>mc b p. \<not> (mc = MC_WRITE \<and> b = 1)) False"
  have w: "\<not> fst (write_card ?W (card_1k True) fresh)"
    "last (stdout (snd (write_card ?W (card_1k True) fresh))) = Tag_removed"
    "last (added fresh (snd (write_card ?W (card_1k True) fresh))) = Select None False"
    by (simp_all add: write_card_def write_blocks.simps [of _ _ 0] write_blocks_Suc_0
        write_blocks.simps [of _ _ 2] write_blocks.simps [of _ _ 3] write_blocks.simps [of _ _ 4]
        run_simps added_def)
  have r1: "write_block ?W 7 True ?st = (fst (write_block ?W 7 True ?st), snd (write_block ?W 7 True ?st))"
    by simp
  note inst2 = write_sector_discipline [OF r1 l refl refl refl,
      where cfg = "card_1k True" and ?st0.0 = fresh]
  from inst2 have "\<not> fst (write_card ?W (card_1k True) fresh) \<longrightarrow>
      (last (stdout (snd (write_card ?W (card_1k True) fresh))) = Tag_removed \<or>
       (\<exists>x. last (stdout (snd (write_card ?W (card_1k True) fresh))) = Auth_failed x)) \<and>
      (added fresh (snd (write_card ?W (card_1k True) fresh)) \<noteq> [] \<and>
       last (added fresh (snd (write_card ?W (card_1k True) fresh))) = Select None False \<or>
       (\<exists>x. x \<in> (\<lambda>a. fst (snd a)) ` set (auth_attempts (added fresh (snd (write_card ?W (card_1k True) fresh)))) \<and>
         (\<forall>a \<in> set (auth_attempts (added fresh (snd (write_card ?W (card_1k True) fresh)))).
            fst (snd a) = x \<longrightarrow> \<not> snd (snd (snd a)))))"
    by blast
  then have ab: "added fresh (snd (write_card ?W (card_1k True) fresh)) \<noteq> [] \<and>
       last (added fresh (snd (write_card ?W (card_1k True) fresh))) = Select None False \<or>
       (\<exists>x. x \<in> (\<lambda>a. fst (snd a)) ` set (auth_attempts (added fresh (snd (write_card ?W (card_1k True) fresh)))) \<and>
         (\<forall>a \<in> set (auth_attempts (added fresh (snd (write_card ?W (card_1k True) fresh)))).
            fst (snd a) = x \<longrightarrow> \<not> snd (snd (snd a))))"
    using w(1) by blast
  have main: "is_trailer_block 7 \<and>
   added ?st (snd (write_block ?T 7 True ?st)) =
     [Mifare MC_WRITE 7 [1, 2, 3, 4, 5, 6, 7, 8, 9, 10, 11, 12, 13, 14, 15, 16] True] \<and>
   fst (write_block ?T 7 True ?st) \<and>
   fst ?r \<and>
   answers ?ws = ?L \<and>
   sorted_wrt (<) (map fst ?ws) \<and>
   (\<exists>a \<in> set (auth_attempts (added fresh (snd ?r))). fst (snd a) = 4 \<and> snd (snd (snd a))) \<and>
   map fst (sector_writes 7 ?ws) = [4, 5, 7] \<and>
   map (\<lambda>w. fst (snd w)) ?ws = replicate 62 (replicate 16 0) \<and>
   marks (printed fresh (snd ?r)) = [False, False, True] @ replicate 14 False"
    using t7 ev ret an srt au s7 by0 m by simp
  show ?thesis
    using main w ab by blast
qed

section \<open>The count of blocks reported\<close>

lemma accepted_cmd:
  assumes "all_accepted T" "nfc_initiator_mifare_cmd T mc b st = (r, st')"
  shows r and "stdout st' = stdout st"
  using mifare_cmd_result(1,7) [OF assms(2)] assms(1) by (simp_all add: all_accepted_def)

lemma accepted_auth:
  assumes "all_accepted T"
  shows "\<exists>st'. authenticate T cfg b st = (True, st') \<and> stdout st' = stdout st"
proof -
  have "fst (authenticate T cfg b st)"
    using assms by (intro authenticate_accepts) (simp add: all_accepted_def)
  then obtain st' where a: "authenticate T cfg b st = (True, st')"
    by (cases "authenticate T cfg b st") simp
  then show ?thesis using authenticate_quiet [OF a] by (simp add: quiet_def)
qed

lemma write_first_accepted:
  assumes "all_accepted T"
  shows "\<exists>st'. write_first T cfg b False cnt st =
      Inr (False, cnt + (if b \<noteq> uiBlocks cfg then 4 else 0), st')"
proof -
  obtain cnt1 st1 where pr: "(if b \<noteq> uiBlocks cfg
      then print_success_or_failure False cnt st else (cnt, st)) = (cnt1, st1)"
    by (cases "if b \<noteq> uiBlocks cfg then print_success_or_failure False cnt st else (cnt, st)")
  have c: "cnt1 = cnt + (if b \<noteq> uiBlocks cfg then 4 else 0)"
    using pr by (auto simp: print_success_or_failure_def split: if_splits)
  obtain st2 where "authenticate T cfg b st1 = (True, st2)"
    using accepted_auth [OF assms] by blast
  then have "write_first T cfg b False cnt st = Inr (False, cnt1, st2)"
    unfolding write_first_def pr by (simp add: write_auth_def)
  then show ?thesis using c by blast
qed

lemma write_block_accepted:
  assumes "all_accepted T" "write_block T b False st = (bF, st')"
  shows "\<not> bF"
proof (cases "is_trailer_block b")
  case True
  then show ?thesis
    using assms(2) accepted_cmd(1) [OF assms(1)]
    by (auto simp: write_block_def split: prod.splits bool.splits)
next
  case False
  then show ?thesis
    using assms(2) accepted_cmd(1) [OF assms(1)]
    by (auto simp: write_block_def split: if_splits prod.splits bool.splits)
qed

lemma write_blocks_count:
  "all_accepted T \<Longrightarrow> b \<le> Suc (uiBlocks cfg) \<Longrightarrow> write_blocks T cfg b False cnt st = (ret, st') \<Longrightarrow>
     ret \<and> last (stdout st') =
       Done_written
         (cnt + 4 * length (filter (\<lambda>x. is_first_block x \<and> x \<noteq> uiBlocks cfg)
                      [b ..< Suc (uiBlocks cfg)]) + 4)
         (uiBlocks cfg + 1)"
proof (induction T cfg b "False" cnt st arbitrary: ret st' rule: write_blocks.induct)
  case (1 T cfg uiBlock uiWriteBlocks st)
  show ?case
  proof (cases "uiBlock \<le> uiBlocks cfg")
    case False
    then have "uiBlock = Suc (uiBlocks cfg)" using "1.prems"(2) by simp
    then show ?thesis
      using "1.prems"(3)
      by (auto simp: write_blocks.simps [of T cfg "Suc (uiBlocks cfg)"] print_success_or_failure_def)
  next
    case True
    define res where "res = (if is_first_block uiBlock
          then write_first T cfg uiBlock False uiWriteBlocks st
          else Inr (False, uiWriteBlocks, st))"
    define cnt1 where "cnt1 = uiWriteBlocks +
        (if is_first_block uiBlock \<and> uiBlock \<noteq> uiBlocks cfg then 4 else 0)"
    have "\<exists>st1. res = Inr (False, cnt1, st1)"
    proof (cases "is_first_block uiBlock")
      case True
      then show ?thesis
        using write_first_accepted [OF "1.prems"(1), of cfg uiBlock uiWriteBlocks st]
        by (simp add: res_def cnt1_def)
    next
      case False
      then show ?thesis by (simp add: res_def cnt1_def)
    qed
    then obtain st1 where res: "res = Inr (False, cnt1, st1)" by blast
    obtain bF2 st2 where wb: "write_block T uiBlock False st1 = (bF2, st2)"
      by (cases "write_block T uiBlock False st1")
    have b2: "bF2 = False" using write_block_accepted [OF "1.prems"(1) wb] by simp
    have run: "write_blocks T cfg (uiBlock + 1) False cnt1 st2 = (ret, st')"
      using "1.prems"(3) True res wb b2
      by (simp add: write_blocks.simps [of T cfg uiBlock] res_def [symmetric])
    have le: "uiBlock + 1 \<le> Suc (uiBlocks cfg)" using True by simp
    have wb': "(False, st2) = write_block T uiBlock False st1" using wb b2 by simp
    note IH = "1.hyps" [OF True res [unfolded res_def] refl refl wb' "1.prems"(1) le run]
    have upt: "[uiBlock ..< Suc (uiBlocks cfg)] = uiBlock # [uiBlock + 1 ..< Suc (uiBlocks cfg)]"
      using True by (simp add: upt_conv_Cons)
    show ?thesis
      using IH unfolding upt by (auto simp: cnt1_def)
  qed
qed

lemma read_trailer_accepted:
  assumes "all_accepted T"
  shows "\<exists>st'. read_trailer T cfg i False cnt st =
      Inr (False, cnt + (if i \<noteq> uiBlocks cfg then 4 else 0), st')"
proof -
  obtain cnt1 st1 where pr: "(if i \<noteq> uiBlocks cfg
      then print_success_or_failure False cnt st else (cnt, st)) = (cnt1, st1)"
    by (cases "if i \<noteq> uiBlocks cfg then print_success_or_failure False cnt st else (cnt, st)")
  have c: "cnt1 = cnt + (if i \<noteq> uiBlocks cfg then 4 else 0)"
    using pr by (auto simp: print_success_or_failure_def split: if_splits)
  obtain st2 where au: "authenticate T cfg i st1 = (True, st2)"
    using accepted_auth [OF assms] by blast
  obtain r st3 where rd: "nfc_initiator_mifare_cmd T MC_READ i st2 = (r, st3)"
    by (cases "nfc_initiator_mifare_cmd T MC_READ i st2")
  have "\<exists>st'. read_trailer_auth T cfg i cnt1 st1 = Inr (False, cnt1, st')"
    using au rd by (cases r) (simp_all add: read_trailer_auth_def)
  then show ?thesis
    unfolding read_trailer_def pr using c by simp
qed

lemma read_data_accepted:
  assumes "all_accepted T" "read_data T i False st = (bF, st')"
  shows "\<not> bF"
  using assms(2) accepted_cmd(1) [OF assms(1)]
  by (auto simp: read_data_def split: prod.splits bool.splits)

lemma read_blocks_count:
  "all_accepted T \<Longrightarrow> read_blocks T cfg n False cnt st = (ret, st') \<Longrightarrow>
     ret \<and> last (stdout st') =
       Done_read
         (cnt + 4 * length (filter (\<lambda>x. is_trailer_block x \<and> x \<noteq> uiBlocks cfg) [0 ..< n]) + 4)
         (uiBlocks cfg + 1)"
proof (induction n arbitrary: cnt st)
  case 0
  then show ?case by (auto simp: print_success_or_failure_def)
next
  case (Suc i)
  show ?case
  proof (cases "is_trailer_block i")
    case True
    obtain st1 where t: "read_trailer T cfg i False cnt st =
        Inr (False, cnt + (if i \<noteq> uiBlocks cfg then 4 else 0), st1)"
      using read_trailer_accepted [OF Suc.prems(1)] by blast
    have run: "read_blocks T cfg i False (cnt + (if i \<noteq> uiBlocks cfg then 4 else 0)) st1 = (ret, st')"
      using Suc.prems(2) True t by simp
    show ?thesis
      using Suc.IH [OF Suc.prems(1) run] True by simp
  next
    case False
    obtain bF1 st1 where rd: "read_data T i False st = (bF1, st1)"
      by (cases "read_data T i False st")
    have "\<not> bF1" using read_data_accepted [OF Suc.prems(1) rd] .
    then have run: "read_blocks T cfg i False cnt st1 = (ret, st')"
      using Suc.prems(2) False rd by simp
    show ?thesis
      using Suc.IH [OF Suc.prems(1) run] False by simp
  qed
qed

lemma fixed_reader_accepts: "all_accepted (fixed_reader (\<lambda>mc b p. True) sel)"
  by (simp add: all_accepted_def fixed_reader_def)

lemma first_blocks_1k:
  "length (filter (\<lambda>x. is_first_block x \<and> x \<noteq> 63) [0 ..< 64]) = 16"
  "length (filter (\<lambda>x. is_trailer_block x \<and> x \<noteq> 63) [0 ..< 64]) = 15"
  by code_simp+

text \<open>
  Claim C5. On a 1K card on which every authentication and every write succeeds,
  \<open>write_card\<close> is to report 64 of 64 blocks, as \<open>read_card\<close> does for the reads.
  It reports 68 of 64: the test \<open>uiBlock != uiBlocks\<close>, taken over from the read
  loop where it leaves out the first pass through the loop, is true at the first block
  of every sector of the ascending write loop, block 0 included, so the counter is
  raised 16 times in the loop and once more after it.
\<close>

theorem write_card_counts_68_of_64:
  "fst (write_card (fixed_reader (\<lambda>mc b p. True) True) (card_1k True) fresh) \<and>
   last (stdout (snd (write_card (fixed_reader (\<lambda>mc b p. True) True) (card_1k True) fresh))) =
     Done_written 68 64 \<and>
   last (stdout (snd (read_card (fixed_reader (\<lambda>mc b p. True) True) (card_1k True) fresh))) =
     Done_read 64 64"
proof -
  let ?T = "fixed_reader (\<lambda>mc b p. True) True"
  let ?cfg = "card_1k True"
  have u: "uiBlocks ?cfg = 63" by (simp add: card_1k_def)
  have w: "write_blocks ?T ?cfg 0 False 0 (fresh\<lparr>stdout := stdout fresh @ [Writing (uiBlocks ?cfg + 1)]\<rparr>)
      = write_card ?T ?cfg fresh"
    by (simp only: write_card_def)
  have r: "read_blocks ?T ?cfg (Suc (uiBlocks ?cfg)) False 0
      (fresh\<lparr>stdout := stdout fresh @ [Reading_out (uiBlocks ?cfg + 1)]\<rparr>)
      = read_card ?T ?cfg fresh"
    by (simp only: read_card_def)
  have 1: "fst (write_card ?T ?cfg fresh) \<and>
      last (stdout (snd (write_card ?T ?cfg fresh))) = Done_written 68 64"
    using write_blocks_count [OF fixed_reader_accepts _ trans [OF w surjective_pairing]]
    by (simp add: u first_blocks_1k(1))
  have 2: "last (stdout (snd (read_card ?T ?cfg fresh))) = Done_read 64 64"
    using read_blocks_count [OF fixed_reader_accepts trans [OF r surjective_pairing]]
    by (simp add: u first_blocks_1k(2))
  show ?thesis using 1 2 by simp
qed

end
